theory Spec2Isabelle
  imports Complex_Main
begin

section \<open>The embedding gateway of \<open>embedding_service.py\<close>\<close>

text \<open>
  The service resolves texts to dense vectors. It consults a Redis cache first, calls the
  embedding model for the misses and writes valid vectors back. The model, Redis, pickle
  and the MD5 digest are collaborators of the service: the model, pickle and the digest are
  passed to every function in a record, Redis is a small key-value store with expiry, a
  clock and the failures a client can see.

  A Python \<open>str\<close> is a list of Unicode code points, a \<open>bytes\<close> value a list of
  numbers. A vector is a list of numbers of which the service uses the length only.
  Every function returns the exception it raises as \<open>Inl\<close>, together with the state
  reached and the commands it sent to Redis and to the model, in order.
\<close>

type_synonym pystr = "nat list"
type_synonym bytes = "nat list"
type_synonym vec = "real list"

datatype pyexn = UnicodeEncodeError | RedisError | UnpicklingError | IndexError | ModelError

datatype event =
    RedisGet string
  | RedisSetex string nat bytes
  | ModelEncode "pystr list" nat nat

subsection \<open>Collaborators\<close>

text \<open>
  \<open>md5_utf8 t\<close> is \<open>hashlib.md5(t.encode('utf-8')).hexdigest()\<close>, which raises on a
  text that UTF-8 cannot encode. \<open>pickle_loads\<close> raises on a payload that is no pickle;
  what it returns is \<open>None\<close> or a vector. \<open>model_encode ts b m\<close> is
  \<open>model.encode(ts, batch_size=b, max_length=m)["dense_vecs"]\<close>: it raises, or returns a
  sequence whose elements are \<open>None\<close> or vectors of any length.
\<close>

record deps =
  md5_utf8 :: "pystr \<Rightarrow> pyexn + string"
  pickle_loads :: "bytes \<Rightarrow> pyexn + vec option"
  pickle_dumps :: "vec \<Rightarrow> bytes"
  model_encode :: "pystr list \<Rightarrow> nat \<Rightarrow> nat \<Rightarrow> pyexn + vec option list"

text \<open>
  The Redis server as its client sees it: the stored payloads with the instant at which
  each expires, the server's clock in seconds, and the keys at which a command raises.
\<close>

record redis =
  entries :: "string \<Rightarrow> (bytes \<times> nat) option"
  clock :: nat
  ping_raises :: bool
  get_raises :: "string set"
  setex_raises :: "string set"

definition redis_ping :: "redis \<Rightarrow> pyexn + bool" where
  "redis_ping r = (if ping_raises r then Inl RedisError else Inr True)"

definition redis_get :: "redis \<Rightarrow> string \<Rightarrow> pyexn + bytes option" where
  "redis_get r k =
     (if k \<in> get_raises r then Inl RedisError
      else Inr (case entries r k of
                  None \<Rightarrow> None
                | Some (b, expiry) \<Rightarrow> if clock r < expiry then Some b else None))"

definition redis_setex :: "redis \<Rightarrow> string \<Rightarrow> nat \<Rightarrow> bytes \<Rightarrow> pyexn + redis" where
  "redis_setex r k ttl b =
     (if k \<in> setex_raises r then Inl RedisError
      else Inr (r\<lparr>entries := (entries r)(k \<mapsto> (b, clock r + ttl))\<rparr>))"

subsection \<open>Module state and constants\<close>

definition EMBEDDING_DIM :: nat where
  "EMBEDDING_DIM = 1024"

definition CACHE_TTL :: nat where
  "CACHE_TTL = 3600"

record world =
  CACHE_ENABLED :: bool
  cache :: "redis option"

text \<open>Lines 38 to 46: one probe when the module is loaded.\<close>

definition startup :: "redis \<Rightarrow> world" where
  "startup r =
     (case redis_ping r of
        Inr _ \<Rightarrow> \<lparr>CACHE_ENABLED = True, cache = Some r\<rparr>
      | Inl e \<Rightarrow> \<lparr>CACHE_ENABLED = False, cache = None\<rparr>)"

subsection \<open>Strings\<close>

text \<open>The code points at which Python's \<open>str.isspace\<close> holds.\<close>

definition isspace :: "nat \<Rightarrow> bool" where
  "isspace c \<longleftrightarrow>
     (9 \<le> c \<and> c \<le> 13) \<or> (28 \<le> c \<and> c \<le> 32) \<or> c = 133 \<or> c = 160 \<or> c = 5760 \<or>
     (8192 \<le> c \<and> c \<le> 8202) \<or> c = 8232 \<or> c = 8233 \<or> c = 8239 \<or> c = 8287 \<or> c = 12288"

definition strip :: "pystr \<Rightarrow> pystr" where
  "strip s = rev (dropWhile isspace (rev (dropWhile isspace s)))"

subsection \<open>The cache adapter\<close>

definition get_cache_key :: "deps \<Rightarrow> pystr \<Rightarrow> pyexn + string" where
  "get_cache_key d text =
     (case md5_utf8 d text of Inl e \<Rightarrow> Inl e | Inr h \<Rightarrow> Inr (''emb:'' @ h))"

text \<open>The body of the \<open>try\<close> of \<open>get_cached_embedding\<close>; falling through it returns \<open>None\<close>.\<close>

definition get_cached_try :: "deps \<Rightarrow> redis \<Rightarrow> pystr \<Rightarrow> (pyexn + vec option) \<times> event list" where
  "get_cached_try d r text =
     (case get_cache_key d text of
        Inl e \<Rightarrow> (Inl e, [])
      | Inr key \<Rightarrow>
          (case redis_get r key of
             Inl e \<Rightarrow> (Inl e, [RedisGet key])
           | Inr cached \<Rightarrow>
               (case cached of
                  None \<Rightarrow> (Inr None, [RedisGet key])
                | Some b \<Rightarrow>
                    if b = [] then (Inr None, [RedisGet key])
                    else (case pickle_loads d b of
                            Inl e \<Rightarrow> (Inl e, [RedisGet key])
                          | Inr v \<Rightarrow> (Inr v, [RedisGet key])))))"

definition get_cached_embedding :: "deps \<Rightarrow> world \<Rightarrow> pystr \<Rightarrow> (pyexn + vec option) \<times> event list" where
  "get_cached_embedding d w text =
     (if \<not> CACHE_ENABLED w then (Inr None, [])
      else case cache w of
        None \<Rightarrow> (Inr None, [])
      | Some r \<Rightarrow>
          (case get_cached_try d r text of
             (Inl e, ev) \<Rightarrow> (Inr None, ev)
           | (Inr v, ev) \<Rightarrow> (Inr v, ev)))"

text \<open>The body of the \<open>try\<close> of \<open>cache_embedding\<close>.\<close>

definition cache_try :: "deps \<Rightarrow> redis \<Rightarrow> pystr \<Rightarrow> vec \<Rightarrow> (pyexn + unit) \<times> redis \<times> event list" where
  "cache_try d r text embedding =
     (case get_cache_key d text of
        Inl e \<Rightarrow> (Inl e, r, [])
      | Inr key \<Rightarrow>
          (let payload = pickle_dumps d embedding in
           case redis_setex r key CACHE_TTL payload of
             Inl e \<Rightarrow> (Inl e, r, [RedisSetex key CACHE_TTL payload])
           | Inr r' \<Rightarrow> (Inr (), r', [RedisSetex key CACHE_TTL payload])))"

definition cache_embedding :: "deps \<Rightarrow> world \<Rightarrow> pystr \<Rightarrow> vec \<Rightarrow> (pyexn + unit) \<times> world \<times> event list" where
  "cache_embedding d w text embedding =
     (if \<not> CACHE_ENABLED w then (Inr (), w, [])
      else case cache w of
        None \<Rightarrow> (Inr (), w, [])
      | Some r \<Rightarrow>
          (case cache_try d r text embedding of
             (Inl e, r', ev) \<Rightarrow> (Inr (), w\<lparr>cache := Some r'\<rparr>, ev)
           | (Inr u, r', ev) \<Rightarrow> (Inr (), w\<lparr>cache := Some r'\<rparr>, ev)))"

subsection \<open>The gateway: one text\<close>

record embed_response =
  embedding :: "vec option"
  cached :: "bool option"

definition embed :: "deps \<Rightarrow> world \<Rightarrow> pystr \<Rightarrow> (pyexn + embed_response) \<times> world \<times> event list" where
  "embed d w data_text =
     (let text = (if data_text \<noteq> [] then strip data_text else []) in
      if text = [] then (Inr \<lparr>embedding = None, cached = None\<rparr>, w, [])
      else
        case get_cached_embedding d w text of
          (Inl e, ev) \<Rightarrow> (Inl e, w, ev)
        | (Inr (Some c), ev) \<Rightarrow> (Inr \<lparr>embedding = Some c, cached = Some True\<rparr>, w, ev)
        | (Inr None, ev) \<Rightarrow>
            (let call = ModelEncode [text] 1 8192 in
             case model_encode d [text] 1 8192 of
               Inl e \<Rightarrow> (Inl e, w, ev @ [call])
             | Inr [] \<Rightarrow> (Inl IndexError, w, ev @ [call])
             | Inr (None # _) \<Rightarrow> (Inr \<lparr>embedding = None, cached = None\<rparr>, w, ev @ [call])
             | Inr (Some vec # _) \<Rightarrow>
                 if length vec \<noteq> EMBEDDING_DIM
                 then (Inr \<lparr>embedding = None, cached = None\<rparr>, w, ev @ [call])
                 else
                   (case cache_embedding d w text vec of
                      (Inl e, w', ev') \<Rightarrow> (Inl e, w', ev @ [call] @ ev')
                    | (Inr u, w', ev') \<Rightarrow>
                        (Inr \<lparr>embedding = Some vec, cached = Some False\<rparr>, w', ev @ [call] @ ev'))))"

subsection \<open>The gateway: a batch\<close>

definition clean :: "pystr \<Rightarrow> pystr" where
  "clean t = (if strip t \<noteq> [] then strip t else [32])"

text \<open>Lines 126 to 133: the loop over \<open>enumerate(cleaned_texts)\<close> with its three lists.\<close>

fun lookup_loop ::
  "deps \<Rightarrow> world \<Rightarrow> (nat \<times> pystr) list \<Rightarrow> vec option list \<Rightarrow> pystr list \<Rightarrow> nat list \<Rightarrow>
     (pyexn + vec option list \<times> pystr list \<times> nat list) \<times> event list" where
  "lookup_loop d w [] results texts_to_generate indices_to_generate =
     (Inr (results, texts_to_generate, indices_to_generate), [])"
| "lookup_loop d w ((i, text) # rest) results texts_to_generate indices_to_generate =
     (case get_cached_embedding d w text of
        (Inl e, ev) \<Rightarrow> (Inl e, ev)
      | (Inr found, ev) \<Rightarrow>
          (case (case found of
                   Some c \<Rightarrow>
                     lookup_loop d w rest (results @ [Some c]) texts_to_generate indices_to_generate
                 | None \<Rightarrow>
                     lookup_loop d w rest (results @ [None]) (texts_to_generate @ [text])
                       (indices_to_generate @ [i])) of
             (r, ev') \<Rightarrow> (r, ev @ ev')))"

text \<open>
  Lines 144 to 148: the loop over \<open>zip(indices_to_generate, vectors)\<close>. An index out of
  range raises in Python.
\<close>

fun fill_loop ::
  "deps \<Rightarrow> pystr list \<Rightarrow> (nat \<times> vec option) list \<Rightarrow> vec option list \<Rightarrow> world \<Rightarrow>
     (pyexn + vec option list) \<times> world \<times> event list" where
  "fill_loop d cleaned_texts [] results w = (Inr results, w, [])"
| "fill_loop d cleaned_texts ((idx, None) # rest) results w =
     fill_loop d cleaned_texts rest results w"
| "fill_loop d cleaned_texts ((idx, Some vec) # rest) results w =
     (if length vec = EMBEDDING_DIM then
        if idx < length results then
          if idx < length cleaned_texts then
            (case cache_embedding d w (cleaned_texts ! idx) vec of
               (Inl e, w', ev) \<Rightarrow> (Inl e, w', ev)
             | (Inr u, w', ev) \<Rightarrow>
                 (case fill_loop d cleaned_texts rest (results[idx := Some vec]) w' of
                    (r, w'', ev') \<Rightarrow> (r, w'', ev @ ev')))
          else (Inl IndexError, w, [])
        else (Inl IndexError, w, [])
      else fill_loop d cleaned_texts rest results w)"

definition embed_batch ::
  "deps \<Rightarrow> world \<Rightarrow> pystr list \<Rightarrow> (pyexn + vec option list) \<times> world \<times> event list" where
  "embed_batch d w texts =
     (if texts = [] then (Inr [], w, [])
      else
        let cleaned_texts = map clean texts in
        case lookup_loop d w (enumerate 0 cleaned_texts) [] [] [] of
          (Inl e, ev) \<Rightarrow> (Inl e, w, ev)
        | (Inr (results, texts_to_generate, indices_to_generate), ev) \<Rightarrow>
            if texts_to_generate = [] then (Inr results, w, ev)
            else
              (let call = ModelEncode texts_to_generate 12 8192 in
               case model_encode d texts_to_generate 12 8192 of
                 Inl e \<Rightarrow> (Inl e, w, ev @ [call])
               | Inr vectors \<Rightarrow>
                   (case fill_loop d cleaned_texts (zip indices_to_generate vectors) results w of
                      (r, w', ev') \<Rightarrow> (r, w', ev @ [call] @ ev'))))"


section \<open>Notions used to state the properties\<close>

text \<open>What \<open>get_cached_embedding\<close> returns for a text, and the commands it sends.\<close>

definition lookup :: "deps \<Rightarrow> world \<Rightarrow> pystr \<Rightarrow> vec option" where
  "lookup d w t = (case fst (get_cached_embedding d w t) of Inr v \<Rightarrow> v | Inl e \<Rightarrow> None)"

definition lookup_events :: "deps \<Rightarrow> world \<Rightarrow> pystr \<Rightarrow> event list" where
  "lookup_events d w t = snd (get_cached_embedding d w t)"

text \<open>The state \<open>cache_embedding\<close> leaves, and the commands it sends.\<close>

definition put_world :: "deps \<Rightarrow> world \<Rightarrow> pystr \<Rightarrow> vec \<Rightarrow> world" where
  "put_world d w t v = fst (snd (cache_embedding d w t v))"

definition put_events :: "deps \<Rightarrow> world \<Rightarrow> pystr \<Rightarrow> vec \<Rightarrow> event list" where
  "put_events d w t v = snd (snd (cache_embedding d w t v))"

definition cache_on :: "world \<Rightarrow> bool" where
  "cache_on w \<longleftrightarrow> CACHE_ENABLED w \<and> cache w \<noteq> None"

definition write_events :: "deps \<Rightarrow> bool \<Rightarrow> pystr \<Rightarrow> vec \<Rightarrow> event list" where
  "write_events d on t v =
     (if on then
        (case get_cache_key d t of
           Inl e \<Rightarrow> []
         | Inr key \<Rightarrow> [RedisSetex key CACHE_TTL (pickle_dumps d v)])
      else [])"

text \<open>The test of line 145: the element is a vector of the declared dimension.\<close>

definition valid :: "vec option \<Rightarrow> bool" where
  "valid x = (case x of None \<Rightarrow> False | Some v \<Rightarrow> length v = EMBEDDING_DIM)"

text \<open>The three components of the second loop of \<open>embed_batch\<close>, each on its own.\<close>

fun fill_results :: "(nat \<times> vec option) list \<Rightarrow> vec option list \<Rightarrow> vec option list" where
  "fill_results [] res = res"
| "fill_results ((idx, x) # rest) res =
     (if valid x then fill_results rest (res[idx := x]) else fill_results rest res)"

fun fill_world :: "deps \<Rightarrow> pystr list \<Rightarrow> (nat \<times> vec option) list \<Rightarrow> world \<Rightarrow> world" where
  "fill_world d cleaned [] w = w"
| "fill_world d cleaned ((idx, x) # rest) w =
     (case x of
        None \<Rightarrow> fill_world d cleaned rest w
      | Some v \<Rightarrow>
          if length v = EMBEDDING_DIM then fill_world d cleaned rest (put_world d w (cleaned ! idx) v)
          else fill_world d cleaned rest w)"

definition fill_events :: "deps \<Rightarrow> bool \<Rightarrow> pystr list \<Rightarrow> (nat \<times> vec option) list \<Rightarrow> event list" where
  "fill_events d on cleaned pairs =
     concat (map (\<lambda>(idx, x). case x of
                                None \<Rightarrow> []
                              | Some v \<Rightarrow>
                                  if length v = EMBEDDING_DIM then write_events d on (cleaned ! idx) v
                                  else []) pairs)"

text \<open>
  What one position of the result holds after the second loop: the value \<open>r\<close> the first
  loop put there, replaced by each valid vector paired with the position.
\<close>

definition slot :: "nat \<Rightarrow> (nat \<times> vec option) list \<Rightarrow> vec option \<Rightarrow> vec option" where
  "slot i pairs r = fold (\<lambda>(idx, x) r. if idx = i \<and> valid x then x else r) pairs r"

text \<open>
  The first loop of \<open>embed_batch\<close>: the results it leaves, the positions and the texts it
  records as misses, and the commands it sends.
\<close>

definition hits :: "deps \<Rightarrow> world \<Rightarrow> pystr list \<Rightarrow> vec option list" where
  "hits d w texts = map (\<lambda>t. lookup d w (clean t)) texts"

definition miss_indices :: "deps \<Rightarrow> world \<Rightarrow> pystr list \<Rightarrow> nat list" where
  "miss_indices d w texts = [i \<leftarrow> [0..<length texts]. lookup d w (clean (texts ! i)) = None]"

definition miss_texts :: "deps \<Rightarrow> world \<Rightarrow> pystr list \<Rightarrow> pystr list" where
  "miss_texts d w texts = map (\<lambda>i. clean (texts ! i)) (miss_indices d w texts)"

definition batch_events :: "deps \<Rightarrow> world \<Rightarrow> pystr list \<Rightarrow> event list" where
  "batch_events d w texts = concat (map (\<lambda>t. lookup_events d w (clean t)) texts)"

definition cache_hit :: "deps \<Rightarrow> world \<Rightarrow> pystr list \<Rightarrow> nat \<Rightarrow> bool" where
  "cache_hit d w texts i \<longleftrightarrow> lookup d w (clean (texts ! i)) \<noteq> None"

text \<open>The model returned a valid vector at the place of the miss recorded for position \<open>i\<close>.\<close>

definition provider_valid :: "deps \<Rightarrow> world \<Rightarrow> pystr list \<Rightarrow> nat \<Rightarrow> bool" where
  "provider_valid d w texts i =
     (case model_encode d (miss_texts d w texts) 12 8192 of
        Inl e \<Rightarrow> False
      | Inr vs \<Rightarrow> list_ex (\<lambda>(idx, x). idx = i \<and> valid x) (zip (miss_indices d w texts) vs))"

fun is_model_call :: "event \<Rightarrow> bool" where
  "is_model_call (ModelEncode ts b m) = True"
| "is_model_call (RedisGet k) = False"
| "is_model_call (RedisSetex k ttl b) = False"

fun is_setex :: "event \<Rightarrow> bool" where
  "is_setex (RedisSetex k ttl b) = True"
| "is_setex (RedisGet k) = False"
| "is_setex (ModelEncode ts b m) = False"

fun is_redis_get :: "event \<Rightarrow> bool" where
  "is_redis_get (RedisGet k) = True"
| "is_redis_get (RedisSetex k ttl b) = False"
| "is_redis_get (ModelEncode ts b m) = False"

text \<open>
  The provider-only computation of the specification: the cleaned texts go to the model in
  one call, and a position holds its vector when the model returned a valid one for it
  and nothing otherwise.
\<close>

definition provider_only :: "deps \<Rightarrow> pystr list \<Rightarrow> pyexn + vec option list" where
  "provider_only d texts =
     (if texts = [] then Inr []
      else case model_encode d (map clean texts) 12 8192 of
             Inl e \<Rightarrow> Inl e
           | Inr vs \<Rightarrow>
               Inr (map (\<lambda>i. if i < length vs \<and> valid (vs ! i) then vs ! i else None)
                      [0..<length texts]))"

text \<open>The state \<open>\<delta>\<close> seconds later: the clock of the store has advanced, nothing was evicted.\<close>

definition later :: "nat \<Rightarrow> world \<Rightarrow> world" where
  "later \<delta> w = w\<lparr>cache := map_option (\<lambda>r. r\<lparr>clock := clock r + \<delta>\<rparr>) (cache w)\<rparr>"

text \<open>
  Two calls of \<open>embed\<close> on the same text, the second \<open>\<delta>\<close> seconds after the first: both
  return, the second is a cache hit with the vector the first returned, and at most one
  model call was made by the two together.
\<close>

definition second_call_hits :: "deps \<Rightarrow> world \<Rightarrow> nat \<Rightarrow> pystr \<Rightarrow> bool" where
  "second_call_hits d w \<delta> t =
     (case embed d w t of
        (Inl e, w1, ev1) \<Rightarrow> False
      | (Inr r1, w1, ev1) \<Rightarrow>
          (case embed d (later \<delta> w1) t of
             (Inl e, w2, ev2) \<Rightarrow> False
           | (Inr r2, w2, ev2) \<Rightarrow>
               cached r2 = Some True \<and> embedding r2 \<noteq> None \<and> embedding r2 = embedding r1 \<and>
               length (filter is_model_call (ev1 @ ev2)) \<le> 1))"

section \<open>A sample environment\<close>

text \<open>
  A digest that knows three texts, a pickle of vectors with whole components, a model that
  returns for each text the constant vector of its length, and a Redis that holds nothing
  and answers every command.
\<close>

definition hello :: pystr where
  "hello = [104, 101, 108, 108, 111]"

definition sample_md5 :: "pystr \<Rightarrow> pyexn + string" where
  "sample_md5 t =
     (if t = hello then Inr ''5d41402abc4b2a76b9719d911017c592''
      else if t = [32] then Inr ''7215ee9c7d9dc229d2921a40e899ec5f''
      else if t = [120] then Inr ''9dd4e461268c8034f5c8564e155c67a6''
      else Inl UnicodeEncodeError)"

definition sample_dumps :: "vec \<Rightarrow> bytes" where
  "sample_dumps v = 128 # map (\<lambda>x. nat \<lfloor>x\<rfloor>) v"

fun sample_loads :: "bytes \<Rightarrow> pyexn + vec option" where
  "sample_loads [] = Inl UnpicklingError"
| "sample_loads (h # rest) =
     (if h = 128 then Inr (Some (map real rest))
      else if h = 78 \<and> rest = [] then Inr None
      else Inl UnpicklingError)"

definition sample_encode :: "pystr list \<Rightarrow> nat \<Rightarrow> nat \<Rightarrow> pyexn + vec option list" where
  "sample_encode ts b m = Inr (map (\<lambda>t. Some (replicate EMBEDDING_DIM (real (length t)))) ts)"

definition sample_deps :: deps where
  "sample_deps =
     \<lparr>md5_utf8 = sample_md5, pickle_loads = sample_loads, pickle_dumps = sample_dumps,
      model_encode = sample_encode\<rparr>"

definition empty_redis :: redis where
  "empty_redis =
     \<lparr>entries = (\<lambda>k. None), clock = 0, ping_raises = False, get_raises = {}, setex_raises = {}\<rparr>"

text \<open>A Redis that holds the vector of \<open>hello\<close> until second 3600.\<close>

definition warm_redis :: redis where
  "warm_redis =
     empty_redis\<lparr>entries :=
       (\<lambda>k. if k = ''emb:5d41402abc4b2a76b9719d911017c592''
            then Some (sample_dumps (replicate EMBEDDING_DIM 5), 3600) else None)\<rparr>"

text \<open>The sample environment with a model that returns one vector of length three.\<close>

definition short_encode :: "pystr list \<Rightarrow> nat \<Rightarrow> nat \<Rightarrow> pyexn + vec option list" where
  "short_encode ts b m = Inr [Some [0, 0, 0]]"

definition short_deps :: deps where
  "short_deps = sample_deps\<lparr>model_encode := short_encode\<rparr>"

text \<open>A Redis that holds a vector for the single space until second 3600.\<close>

definition space_redis :: redis where
  "space_redis =
     empty_redis\<lparr>entries :=
       (\<lambda>k. if k = ''emb:7215ee9c7d9dc229d2921a40e899ec5f''
            then Some (sample_dumps (replicate EMBEDDING_DIM 7), 3600) else None)\<rparr>"


section \<open>The two loops of \<open>embed_batch\<close>\<close>

lemma get_cached_embedding_returns:
  "get_cached_embedding d w t = (Inr (lookup d w t), lookup_events d w t)"
  by (simp add: lookup_def lookup_events_def get_cached_embedding_def
      split: option.splits prod.splits sum.splits)

lemma cache_embedding_returns:
  "cache_embedding d w t v = (Inr (), put_world d w t v, put_events d w t v)"
  by (simp add: put_world_def put_events_def cache_embedding_def
      split: option.splits prod.splits sum.splits)

lemma put_events_eq: "put_events d w t v = write_events d (cache_on w) t v"
  by (simp add: put_events_def write_events_def cache_on_def cache_embedding_def cache_try_def Let_def
      split: option.splits prod.splits sum.splits)

lemma cache_on_put_world [simp]: "cache_on (put_world d w t v) = cache_on w"
  by (simp add: put_world_def cache_on_def cache_embedding_def
      split: option.splits prod.splits sum.splits)

lemma lookup_loop_char:
  "lookup_loop d w xs res ttg itg =
     (Inr (res @ map (\<lambda>(i, t). lookup d w t) xs,
           ttg @ map snd (filter (\<lambda>(i, t). lookup d w t = None) xs),
           itg @ map fst (filter (\<lambda>(i, t). lookup d w t = None) xs)),
      concat (map (\<lambda>(i, t). lookup_events d w t) xs))"
proof (induction xs arbitrary: res ttg itg)
  case Nil
  show ?case by simp
next
  case (Cons x xs)
  obtain i t where x: "x = (i, t)" by (cases x)
  show ?case
    by (cases "lookup d w t") (simp_all add: x get_cached_embedding_returns Cons.IH)
qed

lemma fill_loop_char:
  "\<forall>p \<in> set pairs. fst p < length res \<and> fst p < length cleaned \<Longrightarrow>
   fill_loop d cleaned pairs res w =
     (Inr (fill_results pairs res), fill_world d cleaned pairs w,
      fill_events d (cache_on w) cleaned pairs)"
proof (induction d cleaned pairs res w rule: fill_loop.induct)
  case (1 d cleaned res w)
  show ?case by (simp add: fill_events_def)
next
  case (2 d cleaned idx rest res w)
  then show ?case by (simp add: fill_events_def valid_def)
next
  case (3 d cleaned idx vec rest res w)
  then show ?case
    by (simp add: cache_embedding_returns fill_events_def valid_def put_events_eq)
qed

lemma enumerate_map_snd: "map (\<lambda>(i, t). f t) (enumerate n xs) = map f xs"
  by (induction xs arbitrary: n) simp_all

lemma enumerate_filter_fst:
  "map fst (filter (\<lambda>(i, t). P t) (enumerate 0 xs)) = [i \<leftarrow> [0..<length xs]. P (xs ! i)]"
proof (induction xs rule: rev_induct)
  case Nil
  show ?case by simp
next
  case (snoc x xs)
  have "[i \<leftarrow> [0..<length xs]. P ((xs @ [x]) ! i)] = [i \<leftarrow> [0..<length xs]. P (xs ! i)]"
    by (rule filter_cong) (auto simp: nth_append)
  then show ?case
    using snoc by (simp add: enumerate_append_eq)
qed

lemma enumerate_filter_snd:
  "map snd (filter (\<lambda>(i, t). P t) (enumerate n xs)) = filter P xs"
  by (induction xs arbitrary: n) simp_all

lemma filter_upt_nth:
  "map ((!) xs) [i \<leftarrow> [0..<length xs]. P (xs ! i)] = filter P xs"
proof (induction xs rule: rev_induct)
  case Nil
  show ?case by simp
next
  case (snoc x xs)
  have f: "[i \<leftarrow> [0..<length xs]. P ((xs @ [x]) ! i)] = [i \<leftarrow> [0..<length xs]. P (xs ! i)]"
    by (rule filter_cong) (auto simp: nth_append)
  have m: "map ((!) (xs @ [x])) [i \<leftarrow> [0..<length xs]. P (xs ! i)]
           = map ((!) xs) [i \<leftarrow> [0..<length xs]. P (xs ! i)]"
    by (rule map_cong) (auto simp: nth_append)
  show ?case
    using snoc by (simp add: f m)
qed

lemma miss_texts_filter:
  "miss_texts d w texts = filter (\<lambda>t. lookup d w t = None) (map clean texts)"
proof -
  have "map (\<lambda>i. clean (texts ! i)) (miss_indices d w texts)
        = map ((!) (map clean texts))
            [i \<leftarrow> [0..<length (map clean texts)]. lookup d w (map clean texts ! i) = None]"
    unfolding miss_indices_def
    by (rule map_cong) (auto intro: filter_cong)
  also have "\<dots> = filter (\<lambda>t. lookup d w t = None) (map clean texts)"
    by (rule filter_upt_nth)
  finally show ?thesis
    by (simp add: miss_texts_def)
qed

lemma miss_indices_enumerate:
  "map fst (filter (\<lambda>(i, t). lookup d w t = None) (enumerate 0 (map clean texts)))
   = miss_indices d w texts"
proof -
  have "[i \<leftarrow> [0..<length (map clean texts)]. lookup d w (map clean texts ! i) = None]
        = miss_indices d w texts"
    unfolding miss_indices_def by (auto intro: filter_cong)
  then show ?thesis
    by (simp add: enumerate_filter_fst)
qed

lemma miss_indices_bound: "i \<in> set (miss_indices d w texts) \<Longrightarrow> i < length texts"
  by (simp add: miss_indices_def)

lemma embed_batch_char:
  assumes "texts \<noteq> []"
  shows "embed_batch d w texts =
     (if miss_texts d w texts = [] then (Inr (hits d w texts), w, batch_events d w texts)
      else
        case model_encode d (miss_texts d w texts) 12 8192 of
          Inl e \<Rightarrow>
            (Inl e, w, batch_events d w texts @ [ModelEncode (miss_texts d w texts) 12 8192])
        | Inr vs \<Rightarrow>
            (Inr (fill_results (zip (miss_indices d w texts) vs) (hits d w texts)),
             fill_world d (map clean texts) (zip (miss_indices d w texts) vs) w,
             batch_events d w texts @ [ModelEncode (miss_texts d w texts) 12 8192] @
             fill_events d (cache_on w) (map clean texts) (zip (miss_indices d w texts) vs)))"
proof -
  have b: "\<forall>p \<in> set (zip (miss_indices d w texts) vs).
             fst p < length (hits d w texts) \<and> fst p < length (map clean texts)"
    for vs :: "vec option list"
    by (auto simp: hits_def dest!: set_zip_leftD miss_indices_bound)
  show ?thesis
    using assms
    by (simp add: embed_batch_def lookup_loop_char enumerate_map_snd enumerate_filter_snd
        miss_indices_enumerate miss_texts_filter [symmetric] fill_loop_char [OF b]
        hits_def [symmetric] batch_events_def o_def Let_def
        split: sum.splits)
qed

section \<open>What a position of the result holds\<close>

lemma slot_Nil [simp]: "slot i [] r = r"
  by (simp add: slot_def)

lemma slot_Cons [simp]:
  "slot i ((idx, x) # ps) r = slot i ps (if idx = i \<and> valid x then x else r)"
  by (simp add: slot_def)

lemma fill_results_length [simp]: "length (fill_results pairs res) = length res"
  by (induction pairs res rule: fill_results.induct) simp_all

lemma fill_results_nth:
  "i < length res \<Longrightarrow> fill_results pairs res ! i = slot i pairs (res ! i)"
proof (induction pairs res rule: fill_results.induct)
  case (1 res)
  show ?case by simp
next
  case (2 idx x rest res)
  then show ?case
    by (cases "idx = i") simp_all
qed

lemma valid_not_None: "valid x \<Longrightarrow> x \<noteq> None"
  by (cases x) (simp_all add: valid_def)

lemma slot_not_None:
  "slot i pairs r \<noteq> None \<longleftrightarrow> r \<noteq> None \<or> list_ex (\<lambda>(idx, x). idx = i \<and> valid x) pairs"
proof (induction pairs arbitrary: r)
  case Nil
  show ?case by simp
next
  case (Cons p pairs)
  obtain idx x where p: "p = (idx, x)" by (cases p)
  have r: "(if idx = i \<and> valid x then x else r) \<noteq> None \<longleftrightarrow> idx = i \<and> valid x \<or> r \<noteq> None"
    using valid_not_None [of x] by (cases "idx = i \<and> valid x") auto
  have "slot i (p # pairs) r \<noteq> None \<longleftrightarrow>
          (idx = i \<and> valid x \<or> r \<noteq> None) \<or> list_ex (\<lambda>(idx, x). idx = i \<and> valid x) pairs"
    unfolding p slot_Cons Cons.IH r ..
  then show ?case
    by (simp add: p) blast
qed

lemma slot_notin: "i \<notin> set idxs \<Longrightarrow> slot i (zip idxs vs) r = r"
proof (induction idxs arbitrary: vs r)
  case Nil
  show ?case by simp
next
  case (Cons a idxs)
  then show ?case by (cases vs) auto
qed

lemma slot_distinct:
  "distinct idxs \<Longrightarrow> j < length idxs \<Longrightarrow> j < length vs \<Longrightarrow>
   slot (idxs ! j) (zip idxs vs) r = (if valid (vs ! j) then vs ! j else r)"
proof (induction idxs arbitrary: vs j r)
  case Nil
  then show ?case by simp
next
  case (Cons a idxs)
  obtain v vs' where vs: "vs = v # vs'"
    using Cons.prems(3) by (cases vs) auto
  show ?case
  proof (cases j)
    case 0
    then show ?thesis
      using Cons.prems(1) by (simp add: vs slot_notin)
  next
    case (Suc k)
    have "idxs ! k \<noteq> a"
      using Cons.prems Suc by auto
    then show ?thesis
      using Cons.prems Suc Cons.IH [of k vs' r] by (simp add: vs)
  qed
qed

lemma slot_beyond:
  "distinct idxs \<Longrightarrow> j < length idxs \<Longrightarrow> length vs \<le> j \<Longrightarrow>
   slot (idxs ! j) (zip idxs vs) r = r"
proof (induction idxs arbitrary: vs j r)
  case Nil
  then show ?case by simp
next
  case (Cons a idxs)
  show ?case
  proof (cases vs)
    case Nil
    then show ?thesis by simp
  next
    case (Cons v vs')
    then obtain k where j: "j = Suc k"
      using Cons.prems(3) by (cases j) auto
    have "idxs ! k \<noteq> a"
      using Cons.prems j by auto
    then show ?thesis
      using Cons.prems j Cons.IH [of k vs' r] by (simp add: Cons)
  qed
qed

lemma slot_update_other:
  "j < length idxs \<Longrightarrow> i \<noteq> idxs ! j \<Longrightarrow>
   slot i (zip idxs (vs[j := x])) r = slot i (zip idxs vs) r"
proof (induction idxs arbitrary: vs j r)
  case Nil
  then show ?case by simp
next
  case (Cons a idxs)
  show ?case
  proof (cases vs)
    case Nil
    then show ?thesis by simp
  next
    case (Cons v vs')
    show ?thesis
    proof (cases j)
      case 0
      then show ?thesis
        using Cons.prems by (simp add: Cons)
    next
      case (Suc k)
      then show ?thesis
        using Cons.prems Cons.IH [of k vs' ] by (simp add: Cons)
    qed
  qed
qed

lemma miss_indices_distinct: "distinct (miss_indices d w texts)"
  by (simp add: miss_indices_def)

lemma miss_indices_miss:
  "i \<in> set (miss_indices d w texts) \<Longrightarrow> lookup d w (clean (texts ! i)) = None"
  by (simp add: miss_indices_def)

lemma miss_indices_iff:
  "i \<in> set (miss_indices d w texts) \<longleftrightarrow> i < length texts \<and> lookup d w (clean (texts ! i)) = None"
  by (auto simp: miss_indices_def)

lemma miss_texts_length [simp]: "length (miss_texts d w texts) = length (miss_indices d w texts)"
  by (simp add: miss_texts_def)

lemma miss_texts_Nil: "miss_texts d w texts = [] \<longleftrightarrow> miss_indices d w texts = []"
  by (simp add: miss_texts_def)

lemma hits_nth: "i < length texts \<Longrightarrow> hits d w texts ! i = lookup d w (clean (texts ! i))"
  by (simp add: hits_def)

lemma hits_length [simp]: "length (hits d w texts) = length texts"
  by (simp add: hits_def)

text \<open>The outcome of a batch whose model call returns.\<close>

lemma embed_batch_returns:
  assumes "model_encode d (miss_texts d w texts) 12 8192 = Inr vs"
  shows "\<exists>result w' ev. embed_batch d w texts = (Inr result, w', ev) \<and>
           length result = length texts \<and>
           (\<forall>i<length texts. result ! i =
              slot i (zip (miss_indices d w texts) vs) (lookup d w (clean (texts ! i))))"
proof (cases "texts = []")
  case True
  then show ?thesis by (simp add: embed_batch_def)
next
  case False
  show ?thesis
  proof (cases "miss_texts d w texts = []")
    case True
    then show ?thesis
      using False by (simp add: embed_batch_char miss_texts_Nil hits_nth)
  next
    case False
    then show ?thesis
      using \<open>texts \<noteq> []\<close> assms by (simp add: embed_batch_char fill_results_nth hits_nth)
  qed
qed

lemmas sample_simps =
  sample_deps_def sample_md5_def sample_encode_def sample_dumps_def empty_redis_def hello_def
  startup_def redis_ping_def redis_get_def redis_setex_def get_cache_key_def get_cached_try_def
  get_cached_embedding_def cache_try_def cache_embedding_def clean_def strip_def isspace_def
  lookup_def lookup_events_def

lemma provider_valid_no_miss:
  "miss_indices d w texts = [] \<Longrightarrow> \<not> provider_valid d w texts i"
  by (simp add: provider_valid_def split: sum.splits)

section \<open>The commands a batch sends\<close>

lemma lookup_events_model: "filter is_model_call (lookup_events d w t) = []"
  by (simp add: lookup_events_def get_cached_embedding_def get_cached_try_def
      split: option.splits sum.splits)

lemma lookup_events_setex: "filter is_setex (lookup_events d w t) = []"
  by (simp add: lookup_events_def get_cached_embedding_def get_cached_try_def
      split: option.splits sum.splits)

lemma batch_events_model: "filter is_model_call (batch_events d w texts) = []"
  by (simp add: batch_events_def filter_concat o_def lookup_events_model)

lemma batch_events_setex: "filter is_setex (batch_events d w texts) = []"
  by (simp add: batch_events_def filter_concat o_def lookup_events_setex)

lemma write_events_cases:
  "write_events d on t v = [] \<or> (\<exists>key. write_events d on t v = [RedisSetex key CACHE_TTL (pickle_dumps d v)])"
  unfolding write_events_def by (cases on; cases "get_cache_key d t") simp_all

lemma write_events_model: "filter is_model_call (write_events d on t v) = []"
  using write_events_cases [of d on t v] by auto

lemma write_events_setex: "filter is_setex (write_events d on t v) = write_events d on t v"
  using write_events_cases [of d on t v] by auto

lemma fill_events_model: "filter is_model_call (fill_events d on cleaned pairs) = []"
  by (induction pairs)
    (simp_all add: fill_events_def write_events_model split: option.splits prod.splits)

lemma fill_events_setex:
  "filter is_setex (fill_events d on cleaned pairs) = fill_events d on cleaned pairs"
  by (induction pairs)
    (simp_all add: fill_events_def write_events_setex split: option.splits prod.splits)

lemma miss_indices_Nil:
  "miss_indices d w texts = [] \<longleftrightarrow> (\<forall>i<length texts. cache_hit d w texts i)"
  by (auto simp: miss_indices_def cache_hit_def filter_empty_conv)

lemma embed_batch_model_calls:
  "filter is_model_call (snd (snd (embed_batch d w texts))) =
     (if miss_indices d w texts = [] then []
      else [ModelEncode (miss_texts d w texts) 12 8192])"
proof (cases "texts = []")
  case True
  then show ?thesis by (simp add: embed_batch_def miss_indices_def)
next
  case False
  then show ?thesis
    by (simp add: embed_batch_char miss_texts_Nil batch_events_model fill_events_model
        split: sum.splits)
qed

section \<open>Cleaning a text\<close>

lemma strip_space: "strip [32] = []"
  by (simp add: strip_def isspace_def)

lemma clean_blank: "clean (if strip t = [] then [32] else t) = clean t"
  by (simp add: clean_def strip_space)

lemma clean_not_empty: "clean t \<noteq> []"
  by (simp add: clean_def)

section \<open>Replacing the model\<close>

lemma get_cache_key_encode [simp]:
  "get_cache_key (d\<lparr>model_encode := f\<rparr>) t = get_cache_key d t"
  by (simp add: get_cache_key_def)

lemma get_cached_try_encode [simp]:
  "get_cached_try (d\<lparr>model_encode := f\<rparr>) r t = get_cached_try d r t"
  by (simp add: get_cached_try_def cong: sum.case_cong option.case_cong if_cong)

lemma cache_try_encode [simp]:
  "cache_try (d\<lparr>model_encode := f\<rparr>) r t v = cache_try d r t v"
  by (simp add: cache_try_def cong: sum.case_cong)

lemma get_cached_embedding_encode [simp]:
  "get_cached_embedding (d\<lparr>model_encode := f\<rparr>) w t = get_cached_embedding d w t"
  by (simp add: get_cached_embedding_def cong: option.case_cong)

lemma cache_embedding_encode [simp]:
  "cache_embedding (d\<lparr>model_encode := f\<rparr>) w t v = cache_embedding d w t v"
  by (simp add: cache_embedding_def cong: option.case_cong)

lemma lookup_encode [simp]: "lookup (d\<lparr>model_encode := f\<rparr>) w t = lookup d w t"
  by (simp add: lookup_def)

lemma lookup_events_encode [simp]:
  "lookup_events (d\<lparr>model_encode := f\<rparr>) w t = lookup_events d w t"
  by (simp add: lookup_events_def)

lemma put_world_encode [simp]: "put_world (d\<lparr>model_encode := f\<rparr>) w t v = put_world d w t v"
  by (simp add: put_world_def)

lemma write_events_encode [simp]:
  "write_events (d\<lparr>model_encode := f\<rparr>) on t v = write_events d on t v"
  by (simp add: write_events_def cong: sum.case_cong)

lemma hits_encode [simp]: "hits (d\<lparr>model_encode := f\<rparr>) w texts = hits d w texts"
  by (simp add: hits_def)

lemma miss_indices_encode [simp]:
  "miss_indices (d\<lparr>model_encode := f\<rparr>) w texts = miss_indices d w texts"
  by (simp add: miss_indices_def)

lemma miss_texts_encode [simp]:
  "miss_texts (d\<lparr>model_encode := f\<rparr>) w texts = miss_texts d w texts"
  by (simp add: miss_texts_def)

lemma batch_events_encode [simp]:
  "batch_events (d\<lparr>model_encode := f\<rparr>) w texts = batch_events d w texts"
  by (simp add: batch_events_def)

lemma fill_world_encode [simp]:
  "fill_world (d\<lparr>model_encode := f\<rparr>) cleaned pairs w = fill_world d cleaned pairs w"
  by (induction d cleaned pairs w rule: fill_world.induct) (simp_all split: option.splits)

lemma fill_events_encode [simp]:
  "fill_events (d\<lparr>model_encode := f\<rparr>) on cleaned pairs = fill_events d on cleaned pairs"
  by (simp add: fill_events_def cong: option.case_cong if_cong)

lemma zip_take_length: "zip xs (take (length xs) ys) = zip xs ys"
proof (induction xs arbitrary: ys)
  case Nil
  show ?case by simp
next
  case (Cons x xs)
  then show ?case by (cases ys) simp_all
qed

text \<open>The outcome of a batch when the model is replaced by one that returns \<open>vs'\<close>.\<close>

lemma embed_batch_other_vectors:
  assumes "model_encode d (miss_texts d w texts) 12 8192 = Inr vs"
    and "zip (miss_indices d w texts) vs' = zip (miss_indices d w texts) vs"
  shows "embed_batch (d\<lparr>model_encode := \<lambda>ts b m. Inr vs'\<rparr>) w texts = embed_batch d w texts"
proof (cases "texts = []")
  case True
  then show ?thesis by (simp add: embed_batch_def)
next
  case False
  then show ?thesis
    using assms by (simp add: embed_batch_char)
qed

section \<open>The writes of a batch\<close>

lemma write_events_member:
  "e \<in> set (write_events d on t v) \<Longrightarrow>
   \<exists>key. get_cache_key d t = Inr key \<and> e = RedisSetex key CACHE_TTL (pickle_dumps d v)"
  unfolding write_events_def by (cases on; cases "get_cache_key d t") simp_all

lemma fill_events_member:
  "e \<in> set (fill_events d on cleaned pairs) \<Longrightarrow>
   \<exists>idx v key. (idx, Some v) \<in> set pairs \<and> length v = EMBEDDING_DIM \<and>
     get_cache_key d (cleaned ! idx) = Inr key \<and> e = RedisSetex key CACHE_TTL (pickle_dumps d v)"
proof (induction pairs)
  case Nil
  then show ?case by (simp add: fill_events_def)
next
  case (Cons p pairs)
  obtain idx x where p: "p = (idx, x)" by (cases p)
  consider "e \<in> set (fill_events d on cleaned pairs)"
    | v where "x = Some v" "length v = EMBEDDING_DIM" "e \<in> set (write_events d on (cleaned ! idx) v)"
    using Cons.prems by (auto simp: fill_events_def p split: option.splits if_splits)
  then show ?case
  proof cases
    case 1
    then show ?thesis
      using Cons.IH by auto
  next
    case 2
    then show ?thesis
      using write_events_member [of e d on "cleaned ! idx" v] by (auto simp: p)
  qed
qed

lemma embed_batch_setex:
  assumes "model_encode d (miss_texts d w texts) 12 8192 = Inr vs"
  shows "filter is_setex (snd (snd (embed_batch d w texts))) =
     (if miss_indices d w texts = [] then []
      else fill_events d (cache_on w) (map clean texts) (zip (miss_indices d w texts) vs))"
proof (cases "texts = []")
  case True
  then show ?thesis by (simp add: embed_batch_def miss_indices_def)
next
  case False
  then show ?thesis
    using assms
    by (simp add: embed_batch_char miss_texts_Nil batch_events_setex fill_events_setex)
qed

section \<open>A batch with the cache disabled\<close>

lemma lookup_off: "\<not> cache_on w \<Longrightarrow> lookup d w t = None"
  by (auto simp: cache_on_def lookup_def get_cached_embedding_def)

lemma lookup_events_off: "\<not> cache_on w \<Longrightarrow> lookup_events d w t = []"
  by (auto simp: cache_on_def lookup_events_def get_cached_embedding_def)

lemma put_world_off: "\<not> cache_on w \<Longrightarrow> put_world d w t v = w"
  by (auto simp: cache_on_def put_world_def cache_embedding_def)

lemma fill_world_off: "\<not> cache_on w \<Longrightarrow> fill_world d cleaned pairs w = w"
  by (induction d cleaned pairs w rule: fill_world.induct)
    (simp_all add: put_world_off split: option.splits)

lemma fill_events_off: "fill_events d False cleaned pairs = []"
  by (induction pairs) (simp_all add: fill_events_def write_events_def split: option.splits prod.splits)

lemma miss_indices_off: "\<not> cache_on w \<Longrightarrow> miss_indices d w texts = [0..<length texts]"
  by (simp add: miss_indices_def lookup_off)

lemma miss_texts_off: "\<not> cache_on w \<Longrightarrow> miss_texts d w texts = map clean texts"
  by (simp add: miss_texts_filter lookup_off)

lemma hits_off: "\<not> cache_on w \<Longrightarrow> hits d w texts = replicate (length texts) None"
  by (simp add: hits_def lookup_off map_replicate_const)

lemma fill_results_upt:
  "fill_results (zip [0..<n] vs) (replicate n None) =
     map (\<lambda>i. if i < length vs \<and> valid (vs ! i) then vs ! i else None) [0..<n]"
proof (rule nth_equalityI)
  show "length (fill_results (zip [0..<n] vs) (replicate n None)) =
        length (map (\<lambda>i. if i < length vs \<and> valid (vs ! i) then vs ! i else None) [0..<n])"
    by simp
next
  fix i
  assume "i < length (fill_results (zip [0..<n] vs) (replicate n None))"
  then have i: "i < n" by simp
  have "fill_results (zip [0..<n] vs) (replicate n None) ! i = slot i (zip [0..<n] vs) None"
    using i by (simp add: fill_results_nth)
  also have "\<dots> = (if i < length vs \<and> valid (vs ! i) then vs ! i else None)"
    using i slot_distinct [of "[0..<n]" i vs None] slot_beyond [of "[0..<n]" i vs None]
    by (cases "i < length vs") simp_all
  finally show "fill_results (zip [0..<n] vs) (replicate n None) ! i =
        map (\<lambda>i. if i < length vs \<and> valid (vs ! i) then vs ! i else None) [0..<n] ! i"
    using i by simp
qed

lemma embed_batch_off:
  assumes "\<not> cache_on w"
  shows "embed_batch d w texts =
     (provider_only d texts, w,
      if texts = [] then [] else [ModelEncode (map clean texts) 12 8192])"
proof (cases "texts = []")
  case True
  then show ?thesis by (simp add: embed_batch_def provider_only_def)
next
  case False
  then show ?thesis
    using assms
    by (simp add: embed_batch_char provider_only_def miss_texts_off miss_indices_off hits_off
        fill_results_upt fill_world_off fill_events_off batch_events_def lookup_events_off
        split: sum.splits)
qed

lemma startup_off: "ping_raises r \<Longrightarrow> \<not> cache_on (startup r)"
  by (simp add: startup_def redis_ping_def cache_on_def)

lemma write_events_on:
  "get_cache_key d t = Inr key \<Longrightarrow>
   write_events d True t v = [RedisSetex key CACHE_TTL (pickle_dumps d v)]"
  unfolding write_events_def by simp

lemma fill_events_Cons:
  "fill_events d on cleaned ((idx, x) # ps) =
     (case x of
        None \<Rightarrow> []
      | Some v \<Rightarrow> if length v = EMBEDDING_DIM then write_events d on (cleaned ! idx) v else []) @
     fill_events d on cleaned ps"
  by (simp add: fill_events_def)

lemma fill_events_all:
  assumes "\<forall>p \<in> set pairs. valid (snd p) \<and> fst p < length texts \<and>
             (\<exists>k. get_cache_key d (clean (texts ! fst p)) = Inr k)"
  shows "list_all2
           (\<lambda>(i, x) e. \<exists>key v. x = Some v \<and> get_cache_key d (clean (texts ! i)) = Inr key \<and>
                          e = RedisSetex key CACHE_TTL (pickle_dumps d v))
           pairs (fill_events d True (map clean texts) pairs)"
  using assms
proof (induction pairs)
  case Nil
  show ?case by (simp add: fill_events_def)
next
  case (Cons p pairs)
  obtain i x where p: "p = (i, x)" by (cases p)
  obtain v k where
    x: "x = Some v" "length v = EMBEDDING_DIM" and
    i: "i < length texts" and
    k: "get_cache_key d (clean (texts ! i)) = Inr k"
    using Cons.prems by (cases x) (auto simp: p valid_def)
  have "fill_events d True (map clean texts) (p # pairs) =
          RedisSetex k CACHE_TTL (pickle_dumps d v) # fill_events d True (map clean texts) pairs"
    using x i k by (simp add: p fill_events_Cons write_events_on)
  then show ?case
    using Cons x k by (simp add: p)
qed

section \<open>One text with a working cache\<close>

lemma lookup_healthy:
  assumes "CACHE_ENABLED w" "cache w = Some r" "get_cache_key d text = Inr key"
    "key \<notin> get_raises r"
  shows "lookup d w text =
     (case entries r key of
        None \<Rightarrow> None
      | Some (b, e) \<Rightarrow>
          if clock r < e \<and> b \<noteq> [] then (case pickle_loads d b of Inl x \<Rightarrow> None | Inr v \<Rightarrow> v)
          else None)"
  using assms
  by (auto simp: lookup_def get_cached_embedding_def get_cached_try_def redis_get_def
      split: option.splits sum.splits)

lemma put_world_healthy:
  assumes "CACHE_ENABLED w" "cache w = Some r" "get_cache_key d text = Inr key"
    "key \<notin> setex_raises r"
  shows "put_world d w text v =
     w\<lparr>cache := Some (r\<lparr>entries := (entries r)(key \<mapsto> (pickle_dumps d v, clock r + CACHE_TTL))\<rparr>)\<rparr>"
  using assms
  by (simp add: put_world_def cache_embedding_def cache_try_def redis_setex_def Let_def)

lemma embed_text: "(if t \<noteq> [] then strip t else []) = strip t"
  by (simp add: strip_def)

lemma embed_hit:
  "strip t \<noteq> [] \<Longrightarrow> lookup d w (strip t) = Some c \<Longrightarrow>
   embed d w t = (Inr \<lparr>embedding = Some c, cached = Some True\<rparr>, w, lookup_events d w (strip t))"
  by (simp add: embed_def embed_text get_cached_embedding_returns Let_def)

lemma embed_miss_valid:
  "strip t \<noteq> [] \<Longrightarrow> lookup d w (strip t) = None \<Longrightarrow>
   model_encode d [strip t] 1 8192 = Inr (Some v # rest) \<Longrightarrow> length v = EMBEDDING_DIM \<Longrightarrow>
   embed d w t =
     (Inr \<lparr>embedding = Some v, cached = Some False\<rparr>, put_world d w (strip t) v,
      lookup_events d w (strip t) @ [ModelEncode [strip t] 1 8192] @ put_events d w (strip t) v)"
  by (simp add: embed_def embed_text get_cached_embedding_returns cache_embedding_returns Let_def)

lemma embed_first_cases:
  assumes "fst (embed d w t) = Inr \<lparr>embedding = Some v, cached = c1\<rparr>"
  shows "strip t \<noteq> [] \<and>
     (lookup d w (strip t) = Some v \<and> c1 = Some True \<or>
      lookup d w (strip t) = None \<and> c1 = Some False \<and> length v = EMBEDDING_DIM \<and>
      (\<exists>rest. model_encode d [strip t] 1 8192 = Inr (Some v # rest)))"
  using assms
  by (auto simp: embed_def embed_text get_cached_embedding_returns cache_embedding_returns Let_def
      split: if_splits option.splits sum.splits list.splits)

lemma put_events_model: "filter is_model_call (put_events d w t v) = []"
  by (simp add: put_events_eq write_events_model)

section \<open>The lookups and the result of a batch\<close>

lemma lookup_events_get: "filter is_redis_get (lookup_events d w t) = lookup_events d w t"
  by (simp add: lookup_events_def get_cached_embedding_def get_cached_try_def
      split: option.splits sum.splits)

lemma batch_events_get: "filter is_redis_get (batch_events d w texts) = batch_events d w texts"
  by (simp add: batch_events_def filter_concat o_def lookup_events_get)

lemma write_events_get: "filter is_redis_get (write_events d on t v) = []"
  using write_events_cases [of d on t v] by auto

lemma fill_events_get: "filter is_redis_get (fill_events d on cleaned pairs) = []"
  by (induction pairs)
    (simp_all add: fill_events_def write_events_get split: option.splits prod.splits)

lemma embed_batch_gets:
  "filter is_redis_get (snd (snd (embed_batch d w texts))) = batch_events d w texts"
proof (cases "texts = []")
  case True
  then show ?thesis by (simp add: embed_batch_def batch_events_def)
next
  case False
  then show ?thesis
    by (simp add: embed_batch_char batch_events_get fill_events_get split: sum.splits)
qed

lemma embed_batch_fst:
  "fst (embed_batch d w texts) =
     (if miss_indices d w texts = [] then Inr (hits d w texts)
      else case model_encode d (miss_texts d w texts) 12 8192 of
             Inl e \<Rightarrow> Inl e
           | Inr vs \<Rightarrow> Inr (fill_results (zip (miss_indices d w texts) vs) (hits d w texts)))"
proof (cases "texts = []")
  case True
  then show ?thesis by (simp add: embed_batch_def miss_indices_def hits_def)
next
  case False
  then show ?thesis
    by (simp add: embed_batch_char miss_texts_Nil split: sum.splits)
qed

section \<open>Properties of the gateway and of the cache adapter\<close>

subsection \<open>The empty single request\<close>

text \<open>
  C4. For a single text whose trimmed form is empty, \<open>embed\<close> returns the response with
  no embedding at once: it raises nothing, the state is the one it was called in, and no
  command goes to Redis or to the model (no lookup, no write, no model call).
\<close>

theorem embed_empty_text:
  "strip text = [] \<Longrightarrow> embed d w text = (Inr \<lparr>embedding = None, cached = None\<rparr>, w, [])"
  by (simp add: embed_def)

theorem embed_empty_text_witness:
  "strip [32, 9, 10] = [] \<and>
   embed sample_deps (startup empty_redis) [32, 9, 10] =
     (Inr \<lparr>embedding = None, cached = None\<rparr>, startup empty_redis, [])"
  using embed_empty_text [of "[32, 9, 10]" sample_deps "startup empty_redis"]
  by (simp add: strip_def isspace_def)


subsection \<open>The cache adapter never raises\<close>

text \<open>
  C6. \<open>get_cached_embedding\<close> and \<open>cache_embedding\<close> return normally whatever the store
  does. The read returns \<open>None\<close> when the cache is disabled, when the read command raises,
  when the key is absent and when the payload does not unpickle; the write returns when
  the cache is disabled, where it sends nothing, and when the write command raises, where
  the store is left as it was.
\<close>

theorem cache_adapter_total:
  "(\<exists>v ev. get_cached_embedding d w text = (Inr v, ev)) \<and>
   (\<not> CACHE_ENABLED w \<or> cache w = None \<longrightarrow> get_cached_embedding d w text = (Inr None, [])) \<and>
   (\<forall>r key. CACHE_ENABLED w \<and> cache w = Some r \<and> get_cache_key d text = Inr key \<and>
        (redis_get r key = Inl RedisError \<or> redis_get r key = Inr None \<or>
         (\<exists>b e. redis_get r key = Inr (Some b) \<and> pickle_loads d b = Inl e)) \<longrightarrow>
      get_cached_embedding d w text = (Inr None, [RedisGet key])) \<and>
   (\<exists>w' ev. cache_embedding d w text v = (Inr (), w', ev)) \<and>
   (\<not> CACHE_ENABLED w \<or> cache w = None \<longrightarrow> cache_embedding d w text v = (Inr (), w, [])) \<and>
   (\<forall>r key. CACHE_ENABLED w \<and> cache w = Some r \<and> get_cache_key d text = Inr key \<and>
        redis_setex r key CACHE_TTL (pickle_dumps d v) = Inl RedisError \<longrightarrow>
      cache_embedding d w text v = (Inr (), w, [RedisSetex key CACHE_TTL (pickle_dumps d v)]))"
proof (intro conjI)
  show "\<exists>v ev. get_cached_embedding d w text = (Inr v, ev)"
    using get_cached_embedding_returns by blast
  show "\<not> CACHE_ENABLED w \<or> cache w = None \<longrightarrow> get_cached_embedding d w text = (Inr None, [])"
    by (auto simp: get_cached_embedding_def)
  show "\<forall>r key. CACHE_ENABLED w \<and> cache w = Some r \<and> get_cache_key d text = Inr key \<and>
        (redis_get r key = Inl RedisError \<or> redis_get r key = Inr None \<or>
         (\<exists>b e. redis_get r key = Inr (Some b) \<and> pickle_loads d b = Inl e)) \<longrightarrow>
      get_cached_embedding d w text = (Inr None, [RedisGet key])"
    by (auto simp: get_cached_embedding_def get_cached_try_def)
  show "\<exists>w' ev. cache_embedding d w text v = (Inr (), w', ev)"
    using cache_embedding_returns by blast
  show "\<not> CACHE_ENABLED w \<or> cache w = None \<longrightarrow> cache_embedding d w text v = (Inr (), w, [])"
    by (auto simp: cache_embedding_def)
  show "\<forall>r key. CACHE_ENABLED w \<and> cache w = Some r \<and> get_cache_key d text = Inr key \<and>
        redis_setex r key CACHE_TTL (pickle_dumps d v) = Inl RedisError \<longrightarrow>
      cache_embedding d w text v = (Inr (), w, [RedisSetex key CACHE_TTL (pickle_dumps d v)])"
    by (auto simp: cache_embedding_def cache_try_def)
qed

theorem cache_adapter_total_witness:
  "\<not> CACHE_ENABLED (startup (empty_redis\<lparr>ping_raises := True\<rparr>)) \<and>
   get_cached_embedding sample_deps (startup (empty_redis\<lparr>ping_raises := True\<rparr>)) hello
     = (Inr None, []) \<and>
   cache_embedding sample_deps (startup (empty_redis\<lparr>ping_raises := True\<rparr>)) hello [1, 2]
     = (Inr (), startup (empty_redis\<lparr>ping_raises := True\<rparr>), []) \<and>
   redis_get (empty_redis\<lparr>get_raises := UNIV, setex_raises := UNIV\<rparr>)
     ''emb:5d41402abc4b2a76b9719d911017c592'' = Inl RedisError \<and>
   get_cached_embedding sample_deps
     (startup (empty_redis\<lparr>get_raises := UNIV, setex_raises := UNIV\<rparr>)) hello
     = (Inr None, [RedisGet ''emb:5d41402abc4b2a76b9719d911017c592'']) \<and>
   cache_embedding sample_deps
     (startup (empty_redis\<lparr>get_raises := UNIV, setex_raises := UNIV\<rparr>)) hello [1, 2]
     = (Inr (), startup (empty_redis\<lparr>get_raises := UNIV, setex_raises := UNIV\<rparr>),
        [RedisSetex ''emb:5d41402abc4b2a76b9719d911017c592'' CACHE_TTL
           (pickle_dumps sample_deps [1, 2])])"
proof -
  let ?off = "startup (empty_redis\<lparr>ping_raises := True\<rparr>)"
  let ?r = "empty_redis\<lparr>get_raises := UNIV, setex_raises := UNIV\<rparr>"
  let ?k = "''emb:5d41402abc4b2a76b9719d911017c592''"
  have off: "\<not> CACHE_ENABLED ?off"
    by (simp add: startup_def redis_ping_def empty_redis_def)
  have on: "CACHE_ENABLED (startup ?r)" "cache (startup ?r) = Some ?r"
    by (simp_all add: startup_def redis_ping_def empty_redis_def)
  have k: "get_cache_key sample_deps hello = Inr ?k"
    by (simp add: get_cache_key_def sample_deps_def sample_md5_def)
  have g: "redis_get ?r ?k = Inl RedisError"
    by (simp add: redis_get_def)
  have s: "redis_setex ?r ?k CACHE_TTL (pickle_dumps sample_deps [1, 2]) = Inl RedisError"
    by (simp add: redis_setex_def)
  show ?thesis
    using off on k g s
      cache_adapter_total [of sample_deps ?off hello "[1, 2]"]
      cache_adapter_total [of sample_deps "startup ?r" hello "[1, 2]"]
    by simp
qed

subsection \<open>Length and content of a batch result\<close>

text \<open>
  C1. \<open>embed_batch\<close> raises only what the model call raises. Otherwise its result is as long
  as the input (so empty for the empty input), and the result at a position is a vector,
  that is not \<open>None\<close>, exactly when the cache lookup at that position was a hit or the
  model returned a valid vector at the place of the miss recorded for that position.
\<close>

theorem embed_batch_result:
  "case fst (embed_batch d w texts) of
     Inl e \<Rightarrow> miss_texts d w texts \<noteq> [] \<and> model_encode d (miss_texts d w texts) 12 8192 = Inl e
   | Inr result \<Rightarrow>
       length result = length texts \<and>
       (\<forall>i<length texts.
          result ! i \<noteq> None \<longleftrightarrow> cache_hit d w texts i \<or> provider_valid d w texts i)"
proof (cases "texts = []")
  case True
  then show ?thesis by (simp add: embed_batch_def)
next
  case False
  note ne = this
  show ?thesis
  proof (cases "miss_texts d w texts = []")
    case True
    then show ?thesis
      using ne
      by (simp add: embed_batch_char hits_nth cache_hit_def provider_valid_no_miss miss_texts_Nil
          del: not_None_eq)
  next
    case False
    show ?thesis
    proof (cases "model_encode d (miss_texts d w texts) 12 8192")
      case (Inl e)
      then show ?thesis
        using ne False by (simp add: embed_batch_char)
    next
      case (Inr vs)
      then show ?thesis
        using ne False
        by (simp add: embed_batch_char fill_results_nth hits_nth slot_not_None cache_hit_def
            provider_valid_def del: not_None_eq)
    qed
  qed
qed

theorem embed_batch_result_witness:
  "\<exists>result. fst (embed_batch sample_deps (startup empty_redis) [hello, [], hello]) = Inr result \<and>
     length result = 3 \<and> result ! 0 \<noteq> None \<and> result ! 1 \<noteq> None \<and> result ! 2 \<noteq> None"
proof -
  let ?w = "startup empty_redis"
  let ?ts = "[hello, [], hello]"
  have m: "miss_indices sample_deps ?w ?ts = [0, 1, 2]"
    by (simp add: miss_indices_def sample_simps)
  have e: "model_encode sample_deps ts 12 8192 = sample_encode ts 12 8192" for ts
    by (simp add: sample_deps_def)
  have v: "provider_valid sample_deps ?w ?ts i" if "i < 3" for i
    using that
    by (auto simp: provider_valid_def m e miss_texts_def sample_encode_def valid_def less_Suc_eq
        numeral_3_eq_3)
  show ?thesis
    using embed_batch_result [of sample_deps ?w ?ts] v
    by (cases "fst (embed_batch sample_deps ?w ?ts)") (simp_all add: e sample_encode_def)
qed

subsection \<open>At most one model call for a batch\<close>

text \<open>
  C2. The model calls of one \<open>embed_batch\<close> are: none when no position missed the cache,
  and otherwise exactly one, with batch size 12, whose input is the cleaned texts of the
  miss positions in increasing order of position, those and no others. So there is never
  more than one, and none when every position was a hit.
\<close>

theorem embed_batch_provider_calls:
  "filter is_model_call (snd (snd (embed_batch d w texts))) =
     (if miss_indices d w texts = [] then []
      else [ModelEncode (map (\<lambda>i. clean (texts ! i)) (miss_indices d w texts)) 12 8192]) \<and>
   length (filter is_model_call (snd (snd (embed_batch d w texts)))) \<le> 1 \<and>
   ((\<forall>i<length texts. cache_hit d w texts i) \<longrightarrow>
      filter is_model_call (snd (snd (embed_batch d w texts))) = [])"
  by (simp add: embed_batch_model_calls miss_texts_def miss_indices_Nil)

theorem embed_batch_provider_calls_witness:
  "filter is_model_call (snd (snd (embed_batch sample_deps (startup empty_redis) [hello, [], hello])))
     = [ModelEncode [hello, [32], hello] 12 8192] \<and>
   cache_hit sample_deps (startup warm_redis) [hello] 0 \<and>
   filter is_model_call (snd (snd (embed_batch sample_deps (startup warm_redis) [hello]))) = []"
proof -
  have m: "miss_indices sample_deps (startup empty_redis) [hello, [], hello] = [0, 1, 2]"
    by (simp add: miss_indices_def sample_simps)
  have c: "clean hello = hello" "clean [] = [32]"
    by (simp_all add: clean_def strip_def isspace_def hello_def)
  have h: "cache_hit sample_deps (startup warm_redis) [hello] 0"
    by (simp add: cache_hit_def warm_redis_def sample_simps)
  show ?thesis
    using h
      embed_batch_provider_calls [of sample_deps "startup empty_redis" "[hello, [], hello]",
        THEN conjunct1]
      embed_batch_provider_calls [of sample_deps "startup warm_redis" "[hello]",
        THEN conjunct2, THEN conjunct2]
    by (simp add: m c)
qed

subsection \<open>Blank texts in a batch\<close>

text \<open>
  C3. Let the text at position \<open>i\<close> of a batch be empty or all white space. Then
  \<open>embed_batch\<close> cleans it to the single space, and the whole outcome of the call is that of
  the call with the single space in its place. The lookups the call sends are those of
  the cleaned texts, one after the other, so the lookup for position \<open>i\<close> is the lookup of
  the single space. The call raises only what the model call raises. Otherwise the
  result is as long as the input, so the position is kept, and the result at \<open>i\<close> is the
  one of the single space: the cached vector when the single space is in the cache;
  otherwise position \<open>i\<close> is one of the misses, the single space stands at its place in the
  texts of the one model call, and the result at \<open>i\<close> is the vector the model returned at
  that place when it is valid. It is \<open>None\<close> only when the model returned no valid vector
  there.
\<close>

theorem embed_batch_blank_as_space:
  assumes i: "i < length texts" and blank: "strip (texts ! i) = []"
  shows "clean (texts ! i) = [32] \<and>
     embed_batch d w texts = embed_batch d w (map (\<lambda>t. if strip t = [] then [32] else t) texts) \<and>
     filter is_redis_get (snd (snd (embed_batch d w texts)))
       = concat (map (\<lambda>t. lookup_events d w (clean t)) texts) \<and>
     (case fst (embed_batch d w texts) of
        Inl e \<Rightarrow>
          miss_texts d w texts \<noteq> [] \<and> model_encode d (miss_texts d w texts) 12 8192 = Inl e
      | Inr result \<Rightarrow>
          length result = length texts \<and>
          (case lookup d w [32] of
             Some c \<Rightarrow> result ! i = Some c
           | None \<Rightarrow>
               (\<exists>j vs. j < length (miss_indices d w texts) \<and> miss_indices d w texts ! j = i \<and>
                  miss_texts d w texts ! j = [32] \<and>
                  model_encode d (miss_texts d w texts) 12 8192 = Inr vs \<and>
                  filter is_model_call (snd (snd (embed_batch d w texts)))
                    = [ModelEncode (miss_texts d w texts) 12 8192] \<and>
                  result ! i = (if j < length vs \<and> valid (vs ! j) then vs ! j else None))))"
proof (intro conjI)
  let ?idxs = "miss_indices d w texts"
  show c: "clean (texts ! i) = [32]"
    using blank by (simp add: clean_def)
  show "embed_batch d w texts = embed_batch d w (map (\<lambda>t. if strip t = [] then [32] else t) texts)"
    by (simp add: embed_batch_def o_def clean_blank)
  show "filter is_redis_get (snd (snd (embed_batch d w texts)))
          = concat (map (\<lambda>t. lookup_events d w (clean t)) texts)"
    by (simp add: embed_batch_gets batch_events_def)
  show "case fst (embed_batch d w texts) of
        Inl e \<Rightarrow>
          miss_texts d w texts \<noteq> [] \<and> model_encode d (miss_texts d w texts) 12 8192 = Inl e
      | Inr result \<Rightarrow>
          length result = length texts \<and>
          (case lookup d w [32] of
             Some c \<Rightarrow> result ! i = Some c
           | None \<Rightarrow>
               (\<exists>j vs. j < length ?idxs \<and> ?idxs ! j = i \<and>
                  miss_texts d w texts ! j = [32] \<and>
                  model_encode d (miss_texts d w texts) 12 8192 = Inr vs \<and>
                  filter is_model_call (snd (snd (embed_batch d w texts)))
                    = [ModelEncode (miss_texts d w texts) 12 8192] \<and>
                  result ! i = (if j < length vs \<and> valid (vs ! j) then vs ! j else None)))"
  proof (cases "lookup d w [32]")
    case (Some c)
    have n: "i \<notin> set ?idxs"
      using Some c by (simp add: miss_indices_iff)
    have h: "hits d w texts ! i = Some c"
      using i c Some by (simp add: hits_nth)
    have "fill_results (zip ?idxs vs) (hits d w texts) ! i = Some c" for vs
      using i h n by (simp add: fill_results_nth slot_notin)
    then show ?thesis
      using Some h by (simp add: embed_batch_fst miss_texts_Nil split: sum.splits)
  next
    case None
    have m: "i \<in> set ?idxs"
      using i c None by (simp add: miss_indices_iff)
    then obtain j where j: "j < length ?idxs" "?idxs ! j = i"
      by (auto simp: in_set_conv_nth)
    have ne: "?idxs \<noteq> []"
      using m by auto
    have t: "miss_texts d w texts ! j = [32]"
      using j c by (simp add: miss_texts_def)
    have calls: "filter is_model_call (snd (snd (embed_batch d w texts)))
                   = [ModelEncode (miss_texts d w texts) 12 8192]"
      using ne by (simp add: embed_batch_model_calls)
    have r: "fill_results (zip ?idxs vs) (hits d w texts) ! i
               = (if j < length vs \<and> valid (vs ! j) then vs ! j else None)" for vs
    proof -
      have "fill_results (zip ?idxs vs) (hits d w texts) ! i = slot (?idxs ! j) (zip ?idxs vs) None"
        using i j c None by (simp add: fill_results_nth hits_nth)
      also have "\<dots> = (if j < length vs \<and> valid (vs ! j) then vs ! j else None)"
        using j slot_distinct [OF miss_indices_distinct, of j d w texts vs None]
          slot_beyond [OF miss_indices_distinct, of j d w texts vs None]
        by (cases "j < length vs") simp_all
      finally show ?thesis .
    qed
    show ?thesis
    proof (cases "model_encode d (miss_texts d w texts) 12 8192")
      case (Inl e)
      then show ?thesis
        using ne by (simp add: embed_batch_fst miss_texts_Nil)
    next
      case (Inr vs)
      then show ?thesis
        using ne None j t calls r [of vs] by (auto simp: embed_batch_fst)
    qed
  qed
qed

theorem embed_batch_blank_as_space_witness:
  "1 < length [hello, [], hello] \<and> strip ([hello, [], hello] ! 1) = [] \<and>
   (\<exists>result.
      fst (embed_batch sample_deps (startup empty_redis) [hello, [], hello]) = Inr result \<and>
      length result = 3 \<and> result ! 1 = Some (replicate EMBEDDING_DIM 1)) \<and>
   filter is_redis_get (snd (snd (embed_batch sample_deps (startup empty_redis) [hello, [], hello])))
     = [RedisGet ''emb:5d41402abc4b2a76b9719d911017c592'',
        RedisGet ''emb:7215ee9c7d9dc229d2921a40e899ec5f'',
        RedisGet ''emb:5d41402abc4b2a76b9719d911017c592''] \<and>
   (\<exists>result.
      fst (embed_batch sample_deps (startup space_redis) [hello, [], hello]) = Inr result \<and>
      length result = 3 \<and> result ! 1 = Some (replicate EMBEDDING_DIM 7))"
proof -
  let ?ts = "[hello, [], hello]"
  let ?w = "startup empty_redis"
  let ?ws = "startup space_redis"
  have i: "1 < length ?ts"
    by simp
  have b: "strip (?ts ! 1) = []"
    by (simp add: strip_def)
  have c: "clean hello = hello" "clean [] = [32]"
    by (simp_all add: clean_def strip_def isspace_def hello_def)
  have e: "model_encode sample_deps ts 12 8192 = sample_encode ts 12 8192" for ts
    by (simp add: sample_deps_def)
  note res = embed_batch_blank_as_space [OF i b, THEN conjunct2, THEN conjunct2, THEN conjunct2]
  have noraise: "fst (embed_batch sample_deps w ?ts) \<noteq> Inl x" for w x
  proof
    assume a: "fst (embed_batch sample_deps w ?ts) = Inl x"
    show False
      using res [of sample_deps w] unfolding a by (simp add: e sample_encode_def)
  qed
  have g: "lookup_events sample_deps ?w hello = [RedisGet ''emb:5d41402abc4b2a76b9719d911017c592'']"
    "lookup_events sample_deps ?w [32] = [RedisGet ''emb:7215ee9c7d9dc229d2921a40e899ec5f'']"
    by (simp_all add: sample_simps)
  have gets: "filter is_redis_get (snd (snd (embed_batch sample_deps ?w ?ts)))
     = [RedisGet ''emb:5d41402abc4b2a76b9719d911017c592'',
        RedisGet ''emb:7215ee9c7d9dc229d2921a40e899ec5f'',
        RedisGet ''emb:5d41402abc4b2a76b9719d911017c592'']"
    using embed_batch_blank_as_space [OF i b, of sample_deps ?w, THEN conjunct2, THEN conjunct2,
        THEN conjunct1]
    by (simp add: c g)
  have m: "miss_indices sample_deps ?w ?ts = [0, 1, 2]"
    by (simp add: miss_indices_def sample_simps)
  have t: "miss_texts sample_deps ?w ?ts = [hello, [32], hello]"
    by (simp add: miss_texts_def m c)
  have l: "lookup sample_deps ?w [32] = None"
    by (simp add: sample_simps)
  obtain result where r: "fst (embed_batch sample_deps ?w ?ts) = Inr result"
    using noraise [of ?w] by (cases "fst (embed_batch sample_deps ?w ?ts)") auto
  have "length result = 3 \<and> result ! 1 = Some (replicate EMBEDDING_DIM 1)"
  proof -
    obtain j vs where
      j: "j < length (miss_indices sample_deps ?w ?ts)" "miss_indices sample_deps ?w ?ts ! j = 1" and
      vs: "model_encode sample_deps (miss_texts sample_deps ?w ?ts) 12 8192 = Inr vs" and
      n: "length result = length ?ts"
         "result ! 1 = (if j < length vs \<and> valid (vs ! j) then vs ! j else None)"
      using res [of sample_deps ?w] unfolding r l by auto
    have "j = 1"
      using j by (auto simp: m less_Suc_eq numeral_3_eq_3)
    moreover have "vs = [Some (replicate EMBEDDING_DIM (real (length hello))),
                         Some (replicate EMBEDDING_DIM 1),
                         Some (replicate EMBEDDING_DIM (real (length hello)))]"
      using vs by (simp add: e t sample_encode_def)
    ultimately show ?thesis
      using n by (simp add: valid_def)
  qed
  moreover
  have ls: "lookup sample_deps ?ws [32] = Some (replicate EMBEDDING_DIM 7)"
    by (simp add: space_redis_def sample_simps)
  obtain result' where r': "fst (embed_batch sample_deps ?ws ?ts) = Inr result'"
    using noraise [of ?ws] by (cases "fst (embed_batch sample_deps ?ws ?ts)") auto
  have "length result' = 3 \<and> result' ! 1 = Some (replicate EMBEDDING_DIM 7)"
    using res [of sample_deps ?ws] unfolding r' ls by simp
  ultimately show ?thesis
    using i b r r' gets by simp
qed

subsection \<open>A model output of the wrong length\<close>

text \<open>
  C10. Whatever the length of the sequence the model returns, \<open>embed_batch\<close> raises
  nothing. The \<open>j\<close>-th miss position gets the \<open>j\<close>-th vector when there is one and it is
  valid, and keeps \<open>None\<close> otherwise, in particular when the sequence is too short to
  reach it. Vectors beyond the number of misses are ignored: the outcome (result, state,
  commands) is the one obtained when the model returns the sequence cut to that number.
\<close>

theorem embed_batch_length_mismatch:
  assumes "model_encode d (miss_texts d w texts) 12 8192 = Inr vs"
  shows "\<exists>result w' ev.
           embed_batch d w texts = (Inr result, w', ev) \<and>
           length result = length texts \<and>
           (\<forall>j<length (miss_indices d w texts).
              result ! (miss_indices d w texts ! j) =
                (if j < length vs \<and> valid (vs ! j) then vs ! j else None)) \<and>
           embed_batch
             (d\<lparr>model_encode := \<lambda>ts b m. Inr (take (length (miss_indices d w texts)) vs)\<rparr>) w texts
             = (Inr result, w', ev)"
proof -
  let ?idxs = "miss_indices d w texts"
  obtain result w' ev where
    r: "embed_batch d w texts = (Inr result, w', ev)" and
    l: "length result = length texts" and
    s: "\<forall>i<length texts. result ! i = slot i (zip ?idxs vs) (lookup d w (clean (texts ! i)))"
    using embed_batch_returns [OF assms] by blast
  have "result ! (?idxs ! j) = (if j < length vs \<and> valid (vs ! j) then vs ! j else None)"
    if j: "j < length ?idxs" for j
  proof -
    have m: "?idxs ! j \<in> set ?idxs"
      using j by simp
    have "result ! (?idxs ! j) = slot (?idxs ! j) (zip ?idxs vs) None"
      using s miss_indices_bound [OF m] miss_indices_miss [OF m] by simp
    also have "\<dots> = (if j < length vs \<and> valid (vs ! j) then vs ! j else None)"
      using j slot_distinct [OF miss_indices_distinct, of j d w texts vs None]
        slot_beyond [OF miss_indices_distinct, of j d w texts vs None]
      by (cases "j < length vs") simp_all
    finally show ?thesis .
  qed
  moreover have "embed_batch (d\<lparr>model_encode := \<lambda>ts b m. Inr (take (length ?idxs) vs)\<rparr>) w texts
                 = (Inr result, w', ev)"
    using embed_batch_other_vectors [OF assms, of "take (length ?idxs) vs"] r
    by (simp add: zip_take_length)
  ultimately show ?thesis
    using r l by blast
qed

theorem embed_batch_length_mismatch_witness:
  "model_encode (sample_deps\<lparr>model_encode := \<lambda>ts b m. Inr [Some (replicate EMBEDDING_DIM 1)]\<rparr>)
     (miss_texts (sample_deps\<lparr>model_encode := \<lambda>ts b m. Inr [Some (replicate EMBEDDING_DIM 1)]\<rparr>)
        (startup empty_redis) [hello, [], hello]) 12 8192
     = Inr [Some (replicate EMBEDDING_DIM 1)] \<and>
   (\<exists>result.
      fst (embed_batch
             (sample_deps\<lparr>model_encode := \<lambda>ts b m. Inr [Some (replicate EMBEDDING_DIM 1)]\<rparr>)
             (startup empty_redis) [hello, [], hello]) = Inr result \<and>
      length result = 3 \<and> result ! 0 = Some (replicate EMBEDDING_DIM 1) \<and>
      result ! 1 = None \<and> result ! 2 = None)"
proof -
  let ?d = "sample_deps\<lparr>model_encode := \<lambda>ts b m. Inr [Some (replicate EMBEDDING_DIM 1)]\<rparr>"
  let ?w = "startup empty_redis"
  let ?ts = "[hello, [], hello]"
  have m: "miss_indices sample_deps ?w ?ts = [0, 1, 2]"
    by (simp add: miss_indices_def sample_simps)
  have e: "model_encode ?d (miss_texts ?d ?w ?ts) 12 8192 = Inr [Some (replicate EMBEDDING_DIM 1)]"
    by simp
  obtain result w' ev where
    r: "embed_batch ?d ?w ?ts = (Inr result, w', ev)" and
    l: "length result = length ?ts" and
    n: "\<forall>j<length (miss_indices ?d ?w ?ts).
          result ! (miss_indices ?d ?w ?ts ! j) =
            (if j < length [Some (replicate EMBEDDING_DIM (1::real))] \<and>
                valid ([Some (replicate EMBEDDING_DIM 1)] ! j)
             then [Some (replicate EMBEDDING_DIM 1)] ! j else None)"
    using embed_batch_length_mismatch [OF e] by blast
  have "result ! 0 = Some (replicate EMBEDDING_DIM 1)" "result ! 1 = None" "result ! 2 = None"
    using n [rule_format, of 0] n [rule_format, of 1] n [rule_format, of 2]
    by (simp_all add: m valid_def)
  then show ?thesis
    using e r l by simp
qed

subsection \<open>An invalid vector from the model\<close>

text \<open>
  C5. Let the model return, at the place of the \<open>j\<close>-th miss, no vector, \<open>None\<close>, or a
  vector whose length is not \<open>EMBEDDING_DIM\<close>. Then \<open>embed_batch\<close> raises nothing, the result
  at the position of that miss is \<open>None\<close>, and every write the call sends to the cache
  carries a vector of length \<open>EMBEDDING_DIM\<close> that the model returned for a miss, under the
  key of that miss's text, so the invalid one is not written. The results at all other
  positions do not depend on what the model returned at that place.
\<close>

theorem embed_batch_invalid_vector:
  assumes enc: "model_encode d (miss_texts d w texts) 12 8192 = Inr vs"
    and j: "j < length (miss_indices d w texts)"
    and bad: "\<not> (j < length vs \<and> valid (vs ! j))"
  shows "\<exists>result w' ev.
           embed_batch d w texts = (Inr result, w', ev) \<and>
           result ! (miss_indices d w texts ! j) = None \<and>
           (\<forall>k ttl b. RedisSetex k ttl b \<in> set ev \<longrightarrow>
              (\<exists>i v. (i, Some v) \<in> set (zip (miss_indices d w texts) vs) \<and>
                 length v = EMBEDDING_DIM \<and> get_cache_key d (clean (texts ! i)) = Inr k \<and>
                 ttl = CACHE_TTL \<and> b = pickle_dumps d v)) \<and>
           (\<forall>x. \<exists>result' w'' ev'.
              embed_batch (d\<lparr>model_encode := \<lambda>ts b m. Inr (vs[j := x])\<rparr>) w texts
                = (Inr result', w'', ev') \<and>
              (\<forall>i<length texts. i \<noteq> miss_indices d w texts ! j \<longrightarrow> result' ! i = result ! i))"
proof -
  let ?idxs = "miss_indices d w texts"
  obtain result w' ev where
    r: "embed_batch d w texts = (Inr result, w', ev)" and
    s: "\<forall>i<length texts. result ! i = slot i (zip ?idxs vs) (lookup d w (clean (texts ! i)))"
    using embed_batch_returns [OF enc] by blast
  have m: "?idxs ! j \<in> set ?idxs"
    using j by simp
  have none: "result ! (?idxs ! j) = None"
  proof -
    have "result ! (?idxs ! j) = slot (?idxs ! j) (zip ?idxs vs) None"
      using s miss_indices_bound [OF m] miss_indices_miss [OF m] by simp
    also have "\<dots> = None"
      using j bad slot_distinct [OF miss_indices_distinct, of j d w texts vs None]
        slot_beyond [OF miss_indices_distinct, of j d w texts vs None]
      by (cases "j < length vs") simp_all
    finally show ?thesis .
  qed
  have writes: "\<exists>i v. (i, Some v) \<in> set (zip ?idxs vs) \<and> length v = EMBEDDING_DIM \<and>
                  get_cache_key d (clean (texts ! i)) = Inr k \<and> ttl = CACHE_TTL \<and>
                  b = pickle_dumps d v"
    if "RedisSetex k ttl b \<in> set ev" for k ttl b
  proof -
    have "RedisSetex k ttl b \<in> set (filter is_setex (snd (snd (embed_batch d w texts))))"
      using that r by simp
    then have "RedisSetex k ttl b \<in> set (fill_events d (cache_on w) (map clean texts) (zip ?idxs vs))"
      by (simp add: embed_batch_setex [OF enc] split: if_splits)
    then obtain i v key where
      p: "(i, Some v) \<in> set (zip ?idxs vs)" "length v = EMBEDDING_DIM"
         "get_cache_key d (map clean texts ! i) = Inr key"
         "RedisSetex k ttl b = RedisSetex key CACHE_TTL (pickle_dumps d v)"
      using fill_events_member by blast
    have "i < length texts"
      using p(1) by (auto dest!: set_zip_leftD miss_indices_bound)
    then show ?thesis
      using p by auto
  qed
  have other: "\<exists>result' w'' ev'.
           embed_batch (d\<lparr>model_encode := \<lambda>ts b m. Inr (vs[j := x])\<rparr>) w texts
             = (Inr result', w'', ev') \<and>
           (\<forall>i<length texts. i \<noteq> ?idxs ! j \<longrightarrow> result' ! i = result ! i)" for x
  proof -
    let ?d = "d\<lparr>model_encode := \<lambda>ts b m. Inr (vs[j := x])\<rparr>"
    have "model_encode ?d (miss_texts ?d w texts) 12 8192 = Inr (vs[j := x])"
      by simp
    from embed_batch_returns [OF this] obtain result' w'' ev' where
      r': "embed_batch ?d w texts = (Inr result', w'', ev')" and
      s': "\<forall>i<length texts. result' ! i = slot i (zip ?idxs (vs[j := x])) (lookup d w (clean (texts ! i)))"
      by auto
    have "result' ! i = result ! i" if "i < length texts" "i \<noteq> ?idxs ! j" for i
      using that s s' slot_update_other [OF j, of i vs x] by simp
    then show ?thesis
      using r' by blast
  qed
  show ?thesis
    using r none writes other by blast
qed

theorem embed_batch_invalid_vector_witness:
  "model_encode
     (sample_deps\<lparr>model_encode := \<lambda>ts b m.
        Inr [Some (replicate EMBEDDING_DIM 1), Some (replicate (EMBEDDING_DIM - 1) 1),
             Some (replicate EMBEDDING_DIM 1)]\<rparr>)
     (miss_texts sample_deps (startup empty_redis) [hello, [], hello]) 12 8192
     = Inr [Some (replicate EMBEDDING_DIM 1), Some (replicate (EMBEDDING_DIM - 1) 1),
            Some (replicate EMBEDDING_DIM 1)] \<and>
   1 < length (miss_indices sample_deps (startup empty_redis) [hello, [], hello]) \<and>
   \<not> valid ([Some (replicate EMBEDDING_DIM 1), Some (replicate (EMBEDDING_DIM - 1) 1),
             Some (replicate EMBEDDING_DIM 1)] ! 1) \<and>
   (\<exists>result.
      fst (embed_batch
             (sample_deps\<lparr>model_encode := \<lambda>ts b m.
                Inr [Some (replicate EMBEDDING_DIM 1), Some (replicate (EMBEDDING_DIM - 1) 1),
                     Some (replicate EMBEDDING_DIM 1)]\<rparr>)
             (startup empty_redis) [hello, [], hello]) = Inr result \<and>
      result ! 1 = None)"
proof -
  let ?vs = "[Some (replicate EMBEDDING_DIM 1), Some (replicate (EMBEDDING_DIM - 1) 1),
              Some (replicate EMBEDDING_DIM (1::real))]"
  let ?d = "sample_deps\<lparr>model_encode := \<lambda>ts b m. Inr ?vs\<rparr>"
  let ?w = "startup empty_redis"
  let ?ts = "[hello, [], hello]"
  have m: "miss_indices sample_deps ?w ?ts = [0, 1, 2]"
    by (simp add: miss_indices_def sample_simps)
  have e: "model_encode ?d (miss_texts ?d ?w ?ts) 12 8192 = Inr ?vs"
    by simp
  have j: "1 < length (miss_indices ?d ?w ?ts)"
    by (simp add: m)
  have bad: "\<not> (1 < length ?vs \<and> valid (?vs ! 1))"
    by (simp add: valid_def EMBEDDING_DIM_def)
  obtain result w' ev where
    r: "embed_batch ?d ?w ?ts = (Inr result, w', ev)" and
    n: "result ! (miss_indices ?d ?w ?ts ! 1) = None"
    using embed_batch_invalid_vector [OF e j bad] by blast
  have "result ! 1 = None"
    using n by (simp add: m)
  then show ?thesis
    using e j bad r by simp
qed

subsection \<open>The cache disabled at startup\<close>

text \<open>
  C8. When the probe of the store fails at startup the cache is disabled, and \<open>embed_batch\<close>
  then returns exactly what the provider-only computation over the cleaned texts returns
  (raising when the model call raises). The state is unchanged and the only command sent
  is the one model call on all the cleaned texts.
\<close>

theorem embed_batch_cache_disabled:
  assumes "ping_raises r"
  shows "\<not> CACHE_ENABLED (startup r) \<and>
         embed_batch d (startup r) texts =
           (provider_only d texts, startup r,
            if texts = [] then [] else [ModelEncode (map clean texts) 12 8192])"
  using assms embed_batch_off [OF startup_off [OF assms], of d texts]
  by (simp add: startup_def redis_ping_def)

theorem embed_batch_cache_disabled_witness:
  "ping_raises (warm_redis\<lparr>ping_raises := True\<rparr>) \<and>
   embed_batch sample_deps (startup (warm_redis\<lparr>ping_raises := True\<rparr>)) [hello, [], hello] =
     (Inr [Some (replicate EMBEDDING_DIM 5), Some (replicate EMBEDDING_DIM 1),
           Some (replicate EMBEDDING_DIM 5)],
      startup (warm_redis\<lparr>ping_raises := True\<rparr>),
      [ModelEncode [hello, [32], hello] 12 8192])"
proof -
  have p: "ping_raises (warm_redis\<lparr>ping_raises := True\<rparr>)"
    by simp
  have c: "clean hello = hello" "clean [] = [32]"
    by (simp_all add: clean_def strip_def isspace_def hello_def)
  have l: "length hello = 5"
    by (simp add: hello_def)
  have "provider_only sample_deps [hello, [], hello] =
          Inr [Some (replicate EMBEDDING_DIM 5), Some (replicate EMBEDDING_DIM 1),
               Some (replicate EMBEDDING_DIM 5)]"
    by (simp add: provider_only_def c l sample_deps_def sample_encode_def valid_def upt_rec)
  then show ?thesis
    using p embed_batch_cache_disabled [OF p, of sample_deps "[hello, [], hello]"]
    by (simp add: c)
qed

subsection \<open>Repeated texts in a batch\<close>

text \<open>
  C9. \<open>embed_batch\<close> does not merge equal texts. The texts of the one model call are the
  cleaned texts that missed the cache, each occurrence kept, one per miss position. When
  the cache is enabled, the keys can be computed and the model returns a valid vector for
  every miss, the call sends one write per miss position, in order, each carrying that
  position's vector under its text's key, and each miss position of the result holds its
  own vector.
\<close>

theorem embed_batch_no_dedup:
  assumes enc: "model_encode d (miss_texts d w texts) 12 8192 = Inr vs"
    and len: "length vs = length (miss_indices d w texts)"
    and ok: "\<forall>x \<in> set vs. valid x"
    and on: "cache_on w"
    and keys: "\<forall>t \<in> set texts. \<exists>k. get_cache_key d (clean t) = Inr k"
    and ne: "miss_indices d w texts \<noteq> []"
  shows "\<exists>result w' ev.
           embed_batch d w texts = (Inr result, w', ev) \<and>
           miss_texts d w texts = filter (\<lambda>t. lookup d w t = None) (map clean texts) \<and>
           length (miss_texts d w texts) = length (miss_indices d w texts) \<and>
           filter is_model_call ev = [ModelEncode (miss_texts d w texts) 12 8192] \<and>
           list_all2
             (\<lambda>(i, x) e. \<exists>key v. x = Some v \<and> get_cache_key d (clean (texts ! i)) = Inr key \<and>
                            e = RedisSetex key CACHE_TTL (pickle_dumps d v))
             (zip (miss_indices d w texts) vs) (filter is_setex ev) \<and>
           (\<forall>j<length (miss_indices d w texts). result ! (miss_indices d w texts ! j) = vs ! j)"
proof -
  let ?idxs = "miss_indices d w texts"
  obtain result w' ev where
    r: "embed_batch d w texts = (Inr result, w', ev)" and
    s: "\<forall>i<length texts. result ! i = slot i (zip ?idxs vs) (lookup d w (clean (texts ! i)))"
    using embed_batch_returns [OF enc] by blast
  have calls: "filter is_model_call ev = [ModelEncode (miss_texts d w texts) 12 8192]"
    using embed_batch_model_calls [of d w texts] r ne by simp
  have "\<forall>p \<in> set (zip ?idxs vs). valid (snd p) \<and> fst p < length texts \<and>
          (\<exists>k. get_cache_key d (clean (texts ! fst p)) = Inr k)"
  proof
    fix p
    assume p: "p \<in> set (zip ?idxs vs)"
    obtain i x where ix: "p = (i, x)" by (cases p)
    have "i < length texts"
      using p ix by (auto dest!: set_zip_leftD miss_indices_bound)
    moreover have "valid x"
      using p ix ok by (auto dest: set_zip_rightD)
    ultimately show "valid (snd p) \<and> fst p < length texts \<and>
          (\<exists>k. get_cache_key d (clean (texts ! fst p)) = Inr k)"
      using keys by (simp add: ix)
  qed
  then have writes: "list_all2
             (\<lambda>(i, x) e. \<exists>key v. x = Some v \<and> get_cache_key d (clean (texts ! i)) = Inr key \<and>
                            e = RedisSetex key CACHE_TTL (pickle_dumps d v))
             (zip ?idxs vs) (filter is_setex ev)"
    using embed_batch_setex [OF enc] r ne on fill_events_all [of "zip ?idxs vs" texts d]
    by simp
  have "result ! (?idxs ! j) = vs ! j" if j: "j < length ?idxs" for j
  proof -
    have m: "?idxs ! j \<in> set ?idxs"
      using j by simp
    have v: "valid (vs ! j)"
      using ok j len by simp
    have "result ! (?idxs ! j) = slot (?idxs ! j) (zip ?idxs vs) None"
      using s miss_indices_bound [OF m] miss_indices_miss [OF m] by simp
    also have "\<dots> = vs ! j"
      using j len v slot_distinct [OF miss_indices_distinct, of j d w texts vs None] by simp
    finally show ?thesis .
  qed
  then show ?thesis
    using r calls writes by (simp add: miss_texts_filter [symmetric])
qed

theorem embed_batch_no_dedup_witness:
  "filter is_model_call (snd (snd (embed_batch sample_deps (startup empty_redis) [hello, [], hello])))
     = [ModelEncode [hello, [32], hello] 12 8192] \<and>
   filter is_setex (snd (snd (embed_batch sample_deps (startup empty_redis) [hello, [], hello])))
     = [RedisSetex ''emb:5d41402abc4b2a76b9719d911017c592'' CACHE_TTL
          (sample_dumps (replicate EMBEDDING_DIM 5)),
        RedisSetex ''emb:7215ee9c7d9dc229d2921a40e899ec5f'' CACHE_TTL
          (sample_dumps (replicate EMBEDDING_DIM 1)),
        RedisSetex ''emb:5d41402abc4b2a76b9719d911017c592'' CACHE_TTL
          (sample_dumps (replicate EMBEDDING_DIM 5))] \<and>
   (\<exists>result.
      fst (embed_batch sample_deps (startup empty_redis) [hello, [], hello]) = Inr result \<and>
      result ! 0 = Some (replicate EMBEDDING_DIM 5) \<and>
      result ! 1 = Some (replicate EMBEDDING_DIM 1) \<and>
      result ! 2 = Some (replicate EMBEDDING_DIM 5))"
proof -
  let ?w = "startup empty_redis"
  let ?ts = "[hello, [], hello]"
  let ?vs = "[Some (replicate EMBEDDING_DIM 5), Some (replicate EMBEDDING_DIM 1),
              Some (replicate EMBEDDING_DIM (5::real))]"
  have c: "clean hello = hello" "clean [] = [32]"
    by (simp_all add: clean_def strip_def isspace_def hello_def)
  have l: "length hello = 5"
    by (simp add: hello_def)
  have m: "miss_indices sample_deps ?w ?ts = [0, 1, 2]"
    by (simp add: miss_indices_def sample_simps)
  have t: "miss_texts sample_deps ?w ?ts = [hello, [32], hello]"
    by (simp add: miss_texts_def m c)
  have e: "model_encode sample_deps = sample_encode"
    by (simp add: sample_deps_def)
  have enc: "model_encode sample_deps (miss_texts sample_deps ?w ?ts) 12 8192 = Inr ?vs"
    by (simp add: e t l sample_encode_def)
  have len: "length ?vs = length (miss_indices sample_deps ?w ?ts)"
    by (simp add: m)
  have ok: "\<forall>x \<in> set ?vs. valid x"
    by (simp add: valid_def)
  have on: "cache_on ?w"
    by (simp add: cache_on_def startup_def redis_ping_def empty_redis_def)
  have k: "get_cache_key sample_deps hello = Inr ''emb:5d41402abc4b2a76b9719d911017c592''"
    "get_cache_key sample_deps [32] = Inr ''emb:7215ee9c7d9dc229d2921a40e899ec5f''"
    by (simp_all add: get_cache_key_def sample_deps_def sample_md5_def hello_def)
  have keys: "\<forall>t \<in> set ?ts. \<exists>k. get_cache_key sample_deps (clean t) = Inr k"
    by (simp add: c k)
  have ne: "miss_indices sample_deps ?w ?ts \<noteq> []"
    by (simp add: m)
  obtain result w' ev where
    r: "embed_batch sample_deps ?w ?ts = (Inr result, w', ev)" and
    calls: "filter is_model_call ev = [ModelEncode (miss_texts sample_deps ?w ?ts) 12 8192]" and
    writes: "list_all2
             (\<lambda>(i, x) e. \<exists>key v. x = Some v \<and>
                get_cache_key sample_deps (clean (?ts ! i)) = Inr key \<and>
                e = RedisSetex key CACHE_TTL (pickle_dumps sample_deps v))
             (zip (miss_indices sample_deps ?w ?ts) ?vs) (filter is_setex ev)" and
    res: "\<forall>j<length (miss_indices sample_deps ?w ?ts).
            result ! (miss_indices sample_deps ?w ?ts ! j) = ?vs ! j"
    using embed_batch_no_dedup [OF enc len ok on keys ne] by blast
  have d: "pickle_dumps sample_deps = sample_dumps"
    by (simp add: sample_deps_def)
  have w: "filter is_setex ev
     = [RedisSetex ''emb:5d41402abc4b2a76b9719d911017c592'' CACHE_TTL
          (sample_dumps (replicate EMBEDDING_DIM 5)),
        RedisSetex ''emb:7215ee9c7d9dc229d2921a40e899ec5f'' CACHE_TTL
          (sample_dumps (replicate EMBEDDING_DIM 1)),
        RedisSetex ''emb:5d41402abc4b2a76b9719d911017c592'' CACHE_TTL
          (sample_dumps (replicate EMBEDDING_DIM 5))]"
    using writes by (auto simp: m c k d list_all2_Cons1)
  have "result ! 0 = ?vs ! 0" "result ! 1 = ?vs ! 1" "result ! 2 = ?vs ! 2"
    using res [rule_format, of 0] res [rule_format, of 1] res [rule_format, of 2]
    by (simp_all add: m)
  then show ?thesis
    using r calls w by (simp add: t)
qed

subsection \<open>The same text twice\<close>

text \<open>
  C7, as it holds. Let the cache be enabled, let the key of the trimmed text be computable
  and let reads and writes at that key succeed. Let the first \<open>embed\<close> of a text return
  a vector, from the cache or from the model, and let pickle give that vector back. Let
  the second call come \<open>\<delta>\<close> seconds later with nothing evicted, before the entry expires:
  less than \<open>CACHE_TTL\<close> seconds later when the first call wrote the entry, and before the
  expiry of the entry it read otherwise. Then the second call is a cache hit with the same
  vector, and the two calls make at most one model call together.
\<close>

theorem embed_twice:
  assumes en: "CACHE_ENABLED w" and c: "cache w = Some r"
    and key: "get_cache_key d (strip t) = Inr key"
    and up: "key \<notin> get_raises r" "key \<notin> setex_raises r"
    and first: "fst (embed d w t) = Inr \<lparr>embedding = Some v, cached = c1\<rparr>"
    and rt: "pickle_dumps d v \<noteq> [] \<and> pickle_loads d (pickle_dumps d v) = Inr (Some v)"
    and live: "if c1 = Some True then \<exists>b e. entries r key = Some (b, e) \<and> clock r + \<delta> < e
               else \<delta> < CACHE_TTL"
  shows "second_call_hits d w \<delta> t"
proof -
  have ne: "strip t \<noteq> []"
    using embed_first_cases [OF first] by simp
  consider
    (hit) "lookup d w (strip t) = Some v" "c1 = Some True"
  | (miss) rest where "lookup d w (strip t) = None" "c1 = Some False" "length v = EMBEDDING_DIM"
      "model_encode d [strip t] 1 8192 = Inr (Some v # rest)"
    using embed_first_cases [OF first] by blast
  then show ?thesis
  proof cases
    case hit
    let ?w2 = "later \<delta> w"
    have e1: "embed d w t =
        (Inr \<lparr>embedding = Some v, cached = Some True\<rparr>, w, lookup_events d w (strip t))"
      using embed_hit [OF ne hit(1)] .
    have w2: "CACHE_ENABLED ?w2" "cache ?w2 = Some (r\<lparr>clock := clock r + \<delta>\<rparr>)"
      using en c by (simp_all add: later_def)
    obtain b e where be: "entries r key = Some (b, e)" "clock r + \<delta> < e"
      using live hit(2) by auto
    have "lookup d ?w2 (strip t) = lookup d w (strip t)"
      using be up(1) lookup_healthy [OF en c key up(1)]
        lookup_healthy [OF w2 key, simplified, OF up(1)]
      by simp
    then have e2: "embed d ?w2 t =
        (Inr \<lparr>embedding = Some v, cached = Some True\<rparr>, ?w2, lookup_events d ?w2 (strip t))"
      using embed_hit [OF ne, of d ?w2 v] hit(1) by simp
    show ?thesis
      by (simp add: second_call_hits_def e1 e2 lookup_events_model)
  next
    case miss
    let ?r1 = "r\<lparr>entries := (entries r)(key \<mapsto> (pickle_dumps d v, clock r + CACHE_TTL))\<rparr>"
    let ?w1 = "w\<lparr>cache := Some ?r1\<rparr>"
    let ?w2 = "later \<delta> ?w1"
    have e1: "embed d w t =
        (Inr \<lparr>embedding = Some v, cached = Some False\<rparr>, ?w1,
         lookup_events d w (strip t) @ [ModelEncode [strip t] 1 8192] @ put_events d w (strip t) v)"
      using embed_miss_valid [OF ne miss(1) miss(4) miss(3)]
        put_world_healthy [OF en c key up(2), of v]
      by simp
    have w2: "CACHE_ENABLED ?w2" "cache ?w2 = Some (?r1\<lparr>clock := clock r + \<delta>\<rparr>)"
      using en c by (simp_all add: later_def)
    have d: "\<delta> < CACHE_TTL"
      using live miss(2) by simp
    have "lookup d ?w2 (strip t) = Some v"
      using d rt up(1) lookup_healthy [OF w2 key, simplified, OF up(1)] by simp
    then have e2: "embed d ?w2 t =
        (Inr \<lparr>embedding = Some v, cached = Some True\<rparr>, ?w2, lookup_events d ?w2 (strip t))"
      using embed_hit [OF ne, of d ?w2 v] by simp
    show ?thesis
      by (simp add: second_call_hits_def e1 e2 lookup_events_model put_events_model)
  qed
qed

theorem embed_twice_witness:
  "CACHE_ENABLED (startup empty_redis) \<and> cache (startup empty_redis) = Some empty_redis \<and>
   get_cache_key sample_deps (strip [32, 120, 32]) = Inr ''emb:9dd4e461268c8034f5c8564e155c67a6'' \<and>
   ''emb:9dd4e461268c8034f5c8564e155c67a6'' \<notin> get_raises empty_redis \<and>
   ''emb:9dd4e461268c8034f5c8564e155c67a6'' \<notin> setex_raises empty_redis \<and>
   fst (embed sample_deps (startup empty_redis) [32, 120, 32])
     = Inr \<lparr>embedding = Some (replicate EMBEDDING_DIM 1), cached = Some False\<rparr> \<and>
   pickle_loads sample_deps (pickle_dumps sample_deps (replicate EMBEDDING_DIM 1))
     = Inr (Some (replicate EMBEDDING_DIM 1)) \<and>
   3599 < CACHE_TTL \<and>
   second_call_hits sample_deps (startup empty_redis) 3599 [32, 120, 32]"
proof -
  let ?w = "startup empty_redis"
  let ?t = "[32, 120, 32]"
  let ?k = "''emb:9dd4e461268c8034f5c8564e155c67a6''"
  let ?v = "replicate EMBEDDING_DIM (1::real)"
  have s: "strip ?t = [120]"
    by (simp add: strip_def isspace_def)
  have en: "CACHE_ENABLED ?w" and c: "cache ?w = Some empty_redis"
    by (simp_all add: startup_def redis_ping_def empty_redis_def)
  have key: "get_cache_key sample_deps (strip ?t) = Inr ?k"
    by (simp add: s get_cache_key_def sample_deps_def sample_md5_def hello_def)
  have up: "?k \<notin> get_raises empty_redis" "?k \<notin> setex_raises empty_redis"
    by (simp_all add: empty_redis_def)
  have l: "lookup sample_deps ?w [120] = None"
    by (simp add: sample_simps)
  have m: "model_encode sample_deps [strip ?t] 1 8192 = Inr (Some ?v # [])"
    by (simp add: s sample_deps_def sample_encode_def)
  have first: "fst (embed sample_deps ?w ?t) = Inr \<lparr>embedding = Some ?v, cached = Some False\<rparr>"
    using embed_miss_valid [of ?t sample_deps ?w ?v "[]"] l m by (simp add: s)
  have rt: "pickle_dumps sample_deps ?v \<noteq> [] \<and>
            pickle_loads sample_deps (pickle_dumps sample_deps ?v) = Inr (Some ?v)"
    by (simp add: sample_deps_def sample_dumps_def)
  have live: "if Some False = Some True
              then \<exists>b e. entries empty_redis ?k = Some (b, e) \<and> clock empty_redis + 3599 < e
              else 3599 < CACHE_TTL"
    by (simp add: CACHE_TTL_def)
  show ?thesis
    using en c key up first rt live embed_twice [OF en c key up first rt live]
    by simp
qed

text \<open>
  Without these conditions the property fails, with a working cache in both cases. The
  empty text is answered without a lookup, so its second call is no cache hit. A text for
  which the model returns a vector of the wrong length is never cached, so its second
  call is no cache hit either and calls the model again.
\<close>

theorem embed_twice_counterexample:
  "\<not> second_call_hits sample_deps (startup empty_redis) 60 [] \<and>
   \<not> second_call_hits short_deps (startup empty_redis) 60 hello"
proof
  show "\<not> second_call_hits sample_deps (startup empty_redis) 60 []"
    by (simp add: second_call_hits_def embed_def strip_def)
next
  let ?w = "startup empty_redis"
  have s: "strip hello = hello"
    by (simp add: strip_def isspace_def hello_def)
  have h: "hello \<noteq> []"
    by (simp add: hello_def)
  have l: "lookup sample_deps ?w hello = None" "lookup sample_deps (later 60 ?w) hello = None"
    by (simp_all add: later_def sample_simps)
  have e: "embed short_deps w hello =
      (Inr \<lparr>embedding = None, cached = None\<rparr>, w,
       lookup_events sample_deps w hello @ [ModelEncode [hello] 1 8192])"
    if "lookup sample_deps w hello = None" for w
    using that
    by (simp add: short_deps_def short_encode_def embed_def embed_text s h
        get_cached_embedding_returns Let_def EMBEDDING_DIM_def)
  show "\<not> second_call_hits short_deps ?w 60 hello"
    by (simp add: second_call_hits_def e [OF l(1)] e [OF l(2)])
qed
end
